theory Spec2Isabelle
  imports Main
begin

section \<open>Package model\<close>

text \<open>
  \<^verbatim>\<open>json.RawMessage\<close> is a byte slice and \<^verbatim>\<open>EventStatus\<close> is a Go string; both are
  byte sequences, modelled as \<open>string\<close>.
\<close>

type_synonym RawMessage = string
type_synonym EventStatus = string

definition StatusAccepted :: EventStatus where
  "StatusAccepted = ''accepted''"

definition StatusProcessed :: EventStatus where
  "StatusProcessed = ''processed''"

record EventRequest =
  req_EventID :: string
  req_Payload :: RawMessage

record Event =
  EventID :: string
  Payload :: RawMessage
  Status :: EventStatus

section \<open>Shared memory\<close>

text \<open>
  The store maps keys to \<^verbatim>\<open>*model.Event\<close> and the worker's channel carries the same
  pointers, so the records live in an explicit heap and are referred to by address.
  \<open>next_addr\<close> is the allocator: every \<^verbatim>\<open>&model.Event{...}\<close> takes the next address.
\<close>

type_synonym addr = nat

record Store =
  events :: "string \<rightharpoonup> addr"

text \<open>
  \<open>queue\<close> is the buffer of the channel of capacity 100, oldest element first;
  \<open>done_closed\<close> says whether the channel \<^verbatim>\<open>done\<close> has been closed.
\<close>

record Worker =
  queue :: "addr list"
  processingDelay :: int
  running :: bool
  done_closed :: bool

record memory =
  heap :: "addr \<Rightarrow> Event"
  next_addr :: addr
  store :: Store
  worker :: Worker

definition queue_capacity :: nat where
  "queue_capacity = 100"

section \<open>Package store\<close>

definition New_Store :: Store where
  "New_Store = \<lparr>events = Map.empty\<rparr>"

definition Exists :: "memory \<Rightarrow> string \<Rightarrow> bool" where
  "Exists m eventID = (events (store m) eventID \<noteq> None)"

text \<open>\<open>Save\<close> takes the pointer and reads the key through it; it overwrites unconditionally.\<close>

definition Save :: "memory \<Rightarrow> addr \<Rightarrow> memory" where
  "Save m event =
     m\<lparr>store := (store m)\<lparr>events := (events (store m))(EventID (heap m event) \<mapsto> event)\<rparr>\<rparr>"

definition MarkProcessed :: "memory \<Rightarrow> string \<Rightarrow> memory" where
  "MarkProcessed m eventID =
     (case events (store m) eventID of
        Some event \<Rightarrow> m\<lparr>heap := (heap m)(event := (heap m event)\<lparr>Status := StatusProcessed\<rparr>)\<rparr>
      | None \<Rightarrow> m)"

definition GetStatus :: "memory \<Rightarrow> string \<Rightarrow> EventStatus \<times> bool" where
  "GetStatus m eventID =
     (case events (store m) eventID of
        Some event \<Rightarrow> (Status (heap m event), True)
      | None \<Rightarrow> ('''', False))"

text \<open>
  Go ranges over a map in an order of the runtime's choosing. The order is a parameter:
  \<open>range_order m ks\<close> says that \<open>ks\<close> is one enumeration of the keys present, and
  \<open>List_events m ks\<close> is the slice of pointers that \<^verbatim>\<open>List\<close> builds when the range visits
  the keys in that order.
\<close>

definition range_order :: "memory \<Rightarrow> string list \<Rightarrow> bool" where
  "range_order m ks = (distinct ks \<and> set ks = dom (events (store m)))"

definition List_events :: "memory \<Rightarrow> string list \<Rightarrow> addr list" where
  "List_events m ks = List.map_filter (events (store m)) ks"

section \<open>Package worker\<close>

text \<open>\<^verbatim>\<open>time.Duration\<close> is an int64 count of nanoseconds; the product wraps.\<close>

definition int64 :: "int \<Rightarrow> int" where
  "int64 x = (x + 2 ^ 63) mod 2 ^ 64 - 2 ^ 63"

definition New_Worker :: "int \<Rightarrow> Worker" where
  "New_Worker processingDelayMs =
     \<lparr>queue = [], processingDelay = int64 (int64 processingDelayMs * 1000000),
      running = False, done_closed = False\<rparr>"

text \<open>A send on a full channel blocks: \<open>None\<close> is "cannot proceed now".\<close>

definition Enqueue :: "memory \<Rightarrow> addr \<Rightarrow> memory option" where
  "Enqueue m event =
     (if length (queue (worker m)) < queue_capacity
      then Some (m\<lparr>worker := (worker m)\<lparr>queue := queue (worker m) @ [event]\<rparr>\<rparr>)
      else None)"

definition IsRunning :: "memory \<Rightarrow> bool" where
  "IsRunning m = running (worker m)"

text \<open>\<^verbatim>\<open>processEvent\<close> after its sleep: the key is read through the pointer.\<close>

definition processEvent :: "memory \<Rightarrow> addr \<Rightarrow> memory" where
  "processEvent m event = MarkProcessed m (EventID (heap m event))"

section \<open>Package app\<close>

record Config =
  Port :: string
  Env :: string
  ProcessingDelayMs :: int

definition zero_Event :: Event where
  "zero_Event = \<lparr>EventID = '''', Payload = '''', Status = ''''\<rparr>"

definition New_App :: "Config \<Rightarrow> memory" where
  "New_App config =
     \<lparr>heap = (\<lambda>_. zero_Event), next_addr = 0, store = New_Store,
      worker = New_Worker (ProcessingDelayMs config)\<rparr>"

text \<open>
  Modelled from the spec: \<^verbatim>\<open>model.EventResponse\<close> is used by the GET branch of
  \<^verbatim>\<open>handleEvents\<close> but its declaration is not among the sources; the spec gives the
  list-response element as event_id, payload, status.
\<close>

record EventResponse =
  resp_EventID :: string
  resp_Payload :: RawMessage
  resp_Status :: EventStatus

text \<open>
  The responses of \<^verbatim>\<open>handleEvents\<close>: 202, 409, 400 with its message, 405, and 200 with
  the listing.
\<close>

datatype http_response =
    Accepted
  | Conflict
  | BadRequest string
  | MethodNotAllowed
  | OK "EventResponse list"

datatype http_method = GET | POST | OtherMethod

text \<open>A call either returns its response or is blocked on a channel operation.\<close>

datatype 'a outcome = Returns 'a | Blocks

text \<open>\<^verbatim>\<open>&model.Event{...}\<close>: a fresh record on the heap.\<close>

definition new_Event :: "memory \<Rightarrow> Event \<Rightarrow> addr \<times> memory" where
  "new_Event m ev =
     (next_addr m, m\<lparr>heap := (heap m)(next_addr m := ev), next_addr := Suc (next_addr m)\<rparr>)"

text \<open>
  \<open>Submit\<close> is the body of \<^verbatim>\<open>handleEvents\<close> for a POST whose body decoded to \<open>req\<close>,
  run without interference from another goroutine.
\<close>

definition Submit :: "memory \<Rightarrow> EventRequest \<Rightarrow> http_response outcome \<times> memory" where
  "Submit m req =
     (if req_EventID req = '''' then (Returns (BadRequest ''event_id is required''), m)
      else if Exists m (req_EventID req) then (Returns Conflict, m)
      else
        let (event, m1) = new_Event m
              \<lparr>EventID = req_EventID req, Payload = req_Payload req, Status = StatusAccepted\<rparr>;
            m2 = Save m1 event
        in (case Enqueue m2 event of
              None \<Rightarrow> (Blocks, m2)
            | Some m3 \<Rightarrow> (Returns Accepted, m3)))"

text \<open>
  The whole handler, run without interference: \<open>body\<close> is the result of decoding the
  request body (\<open>None\<close> when the decoder fails) and \<open>ks\<close> the order in which the GET branch's
  \<^verbatim>\<open>List\<close> ranges over the map.
\<close>

definition handleEvents ::
  "memory \<Rightarrow> http_method \<Rightarrow> EventRequest option \<Rightarrow> string list
     \<Rightarrow> http_response outcome \<times> memory" where
  "handleEvents m meth body ks =
     (if meth = GET then
        (Returns (OK (map (\<lambda>event. \<lparr>resp_EventID = EventID (heap m event),
                                        resp_Payload = Payload (heap m event),
                                        resp_Status = Status (heap m event)\<rparr>)
                        (List_events m ks))), m)
      else if meth \<noteq> POST then (Returns MethodNotAllowed, m)
      else (case body of
              None \<Rightarrow> (Returns (BadRequest ''Invalid request body''), m)
            | Some req \<Rightarrow> Submit m req))"

section \<open>Goroutines\<close>

text \<open>
  The handlers, the worker's loop and the caller of \<^verbatim>\<open>Stop\<close> run concurrently. Each is a
  program counter over the shared memory; one step is one critical section of the store's
  mutex or one channel operation, which is the granularity at which Go lets other
  goroutines in between. Sleeping takes no step of its own: the time between the receive
  of an event and its \<^verbatim>\<open>MarkProcessed\<close> is the time between two steps. The flag
  \<^verbatim>\<open>running\<close> is read and written without a lock; the memory is taken to be sequentially
  consistent, so a write is seen by every later read.
\<close>

datatype handler_pc =
    AtCheck EventRequest
  | AtSave EventRequest
  | AtEnqueue addr
  | Responded http_response

fun handler_step :: "handler_pc \<Rightarrow> memory \<Rightarrow> (handler_pc \<times> memory) option" where
  "handler_step (AtCheck req) m =
     Some (if req_EventID req = '''' then (Responded (BadRequest ''event_id is required''), m)
           else if Exists m (req_EventID req) then (Responded Conflict, m)
           else (AtSave req, m))"
| "handler_step (AtSave req) m =
     (let (event, m1) = new_Event m
            \<lparr>EventID = req_EventID req, Payload = req_Payload req, Status = StatusAccepted\<rparr>
      in Some (AtEnqueue event, Save m1 event))"
| "handler_step (AtEnqueue event) m =
     (case Enqueue m event of
        None \<Rightarrow> None
      | Some m' \<Rightarrow> Some (Responded Accepted, m'))"
| "handler_step (Responded r) m = None"

text \<open>A receive from the channel: blocked on an empty buffer.\<close>

definition receive :: "memory \<Rightarrow> (addr \<times> memory) option" where
  "receive m =
     (case queue (worker m) of
        [] \<Rightarrow> None
      | event # q \<Rightarrow> Some (event, m\<lparr>worker := (worker m)\<lparr>queue := q\<rparr>\<rparr>))"

text \<open>
  The loop of \<^verbatim>\<open>Start\<close>: at the select, holding a received event, or gone. The caller of
  \<^verbatim>\<open>Stop\<close>: at the length test of the drain loop, at the receive after a positive test,
  holding a drained event, or returned.
\<close>

datatype loop_pc = NotStarted | AtSelect | Processing addr | Exited

datatype stop_pc = NotCalled | AtLen | AtRecv | Draining addr | Returned

record system =
  mem :: memory
  handlers :: "handler_pc list"
  loop :: loop_pc
  stopper :: stop_pc

text \<open>
  \<^verbatim>\<open>Start\<close> sets the flag and spawns the loop; the first statement of \<^verbatim>\<open>Stop\<close> closes
  \<^verbatim>\<open>done\<close>; the loop clears the flag when its select takes the \<^verbatim>\<open>done\<close> case.
\<close>

definition Start :: "system \<Rightarrow> system" where
  "Start s = s\<lparr>mem := (mem s)\<lparr>worker := (worker (mem s))\<lparr>running := True\<rparr>\<rparr>, loop := AtSelect\<rparr>"

definition close_done :: "memory \<Rightarrow> memory" where
  "close_done m = m\<lparr>worker := (worker m)\<lparr>done_closed := True\<rparr>\<rparr>"

definition loop_exit :: "memory \<Rightarrow> memory" where
  "loop_exit m = m\<lparr>worker := (worker m)\<lparr>running := False\<rparr>\<rparr>"

text \<open>
  The scheduler's choices. When the queue is non-empty and \<^verbatim>\<open>done\<close> is closed, the select
  of the loop may take either case: both \<open>LoopRecv\<close> and \<open>LoopDone\<close> are enabled.
  \<^verbatim>\<open>Start\<close> and \<^verbatim>\<open>Stop\<close> are each called at most once, as \<^verbatim>\<open>main\<close> does.
\<close>

datatype action =
    Handler nat
  | CallStart
  | LoopRecv
  | LoopDone
  | LoopFinish
  | StopClose
  | StopLen
  | StopRecv
  | StopFinish

fun step :: "action \<Rightarrow> system \<Rightarrow> system option" where
  "step (Handler i) s =
     (if i < length (handlers s) then
        (case handler_step (handlers s ! i) (mem s) of
           None \<Rightarrow> None
         | Some (pc, m) \<Rightarrow> Some (s\<lparr>mem := m, handlers := (handlers s)[i := pc]\<rparr>))
      else None)"
| "step CallStart s = (if loop s = NotStarted then Some (Start s) else None)"
| "step LoopRecv s =
     (if loop s = AtSelect then
        (case receive (mem s) of
           None \<Rightarrow> None
         | Some (event, m) \<Rightarrow> Some (s\<lparr>mem := m, loop := Processing event\<rparr>))
      else None)"
| "step LoopDone s =
     (if loop s = AtSelect \<and> done_closed (worker (mem s))
      then Some (s\<lparr>mem := loop_exit (mem s), loop := Exited\<rparr>)
      else None)"
| "step LoopFinish s =
     (case loop s of
        Processing event \<Rightarrow> Some (s\<lparr>mem := processEvent (mem s) event, loop := AtSelect\<rparr>)
      | _ \<Rightarrow> None)"
| "step StopClose s =
     (if stopper s = NotCalled then Some (s\<lparr>mem := close_done (mem s), stopper := AtLen\<rparr>)
      else None)"
| "step StopLen s =
     (if stopper s = AtLen
      then Some (s\<lparr>stopper := (if length (queue (worker (mem s))) > 0 then AtRecv else Returned)\<rparr>)
      else None)"
| "step StopRecv s =
     (if stopper s = AtRecv then
        (case receive (mem s) of
           None \<Rightarrow> None
         | Some (event, m) \<Rightarrow> Some (s\<lparr>mem := m, stopper := Draining event\<rparr>))
      else None)"
| "step StopFinish s =
     (case stopper s of
        Draining event \<Rightarrow> Some (s\<lparr>mem := processEvent (mem s) event, stopper := AtLen\<rparr>)
      | _ \<Rightarrow> None)"

fun run :: "action list \<Rightarrow> system \<Rightarrow> system option" where
  "run [] s = Some s"
| "run (a # as) s = (case step a s of None \<Rightarrow> None | Some s' \<Rightarrow> run as s')"

text \<open>The process after \<^verbatim>\<open>app.New\<close>, with the POST requests that will be served.\<close>

definition initial :: "Config \<Rightarrow> EventRequest list \<Rightarrow> system" where
  "initial config reqs =
     \<lparr>mem = New_App config, handlers = map AtCheck reqs, loop = NotStarted, stopper = NotCalled\<rparr>"

section \<open>Sequences of store operations\<close>

text \<open>
  The core operations, each run to completion before the next begins. A \<^verbatim>\<open>Submit\<close> that
  blocks at the send leaves the memory as it is after its \<^verbatim>\<open>Save\<close>.
\<close>

datatype op =
    Op_Submit EventRequest
  | Op_MarkProcessed string
  | Op_GetStatus string
  | Op_List "string list"

fun apply_op :: "op \<Rightarrow> memory \<Rightarrow> memory" where
  "apply_op (Op_Submit req) m = snd (Submit m req)"
| "apply_op (Op_MarkProcessed k) m = MarkProcessed m k"
| "apply_op (Op_GetStatus k) m = m"
| "apply_op (Op_List ks) m = m"

fun exec :: "op list \<Rightarrow> memory \<Rightarrow> memory" where
  "exec [] m = m"
| "exec (x # xs) m = exec xs (apply_op x m)"

text \<open>
  What \<^verbatim>\<open>handleEvents\<close> and \<^verbatim>\<open>MarkProcessed\<close> maintain of the table: every entry points to an
  allocated record that carries the entry's key, the key is not empty, and the status is
  one of the two declared values.
\<close>

definition store_inv :: "memory \<Rightarrow> bool" where
  "store_inv m =
     (\<forall>k a. events (store m) k = Some a \<longrightarrow>
        a < next_addr m \<and> EventID (heap m a) = k \<and> k \<noteq> '''' \<and>
        (Status (heap m a) = StatusAccepted \<or> Status (heap m a) = StatusProcessed))"

text \<open>The same for a state of the goroutines: a handler past its check holds a non-empty key.\<close>

definition system_inv :: "system \<Rightarrow> bool" where
  "system_inv s =
     (store_inv (mem s) \<and> (\<forall>req. AtSave req \<in> set (handlers s) \<longrightarrow> req_EventID req \<noteq> ''''))"

text \<open>
  The memory a handler leaves behind its \<^verbatim>\<open>Save\<close> when the key was absent: the new record at
  the next address and the table entry pointing to it.
\<close>

definition saved :: "memory \<Rightarrow> EventRequest \<Rightarrow> memory" where
  "saved m req =
     m\<lparr>heap := (heap m)(next_addr m :=
          \<lparr>EventID = req_EventID req, Payload = req_Payload req, Status = StatusAccepted\<rparr>),
       next_addr := Suc (next_addr m),
       store := (store m)\<lparr>events := (events (store m))(req_EventID req \<mapsto> next_addr m)\<rparr>\<rparr>"

text \<open>What a caller sees through a slice of pointers: the records they point to.\<close>

definition records :: "memory \<Rightarrow> addr list \<Rightarrow> Event list" where
  "records m xs = map (heap m) xs"

text \<open>
  The pointers in flight: queued, held by a handler about to send, or held by the loop or
  by the caller of \<^verbatim>\<open>Stop\<close>. Each of them was saved before it was sent: it is allocated and
  its key is in the table.
\<close>

definition in_flight :: "system \<Rightarrow> addr set" where
  "in_flight s =
     set (queue (worker (mem s))) \<union> {e. AtEnqueue e \<in> set (handlers s)} \<union>
     {e. loop s = Processing e} \<union> {e. stopper s = Draining e}"

definition flight_inv :: "system \<Rightarrow> bool" where
  "flight_inv s =
     (\<forall>e \<in> in_flight s. e < next_addr (mem s) \<and> Exists (mem s) (EventID (heap (mem s) e)))"

text \<open>
  The steps of \<^verbatim>\<open>Stop\<close>'s drain loop for \<open>n\<close> queued items when nothing else runs in between:
  \<open>n\<close> rounds of length test, receive and processing, then the final length test.
\<close>

definition drain :: "nat \<Rightarrow> action list" where
  "drain n = concat (replicate n [StopLen, StopRecv, StopFinish]) @ [StopLen]"

text \<open>
  \<^verbatim>\<open>Stop\<close> run without interference: close \<^verbatim>\<open>done\<close>, then the drain loop, which receives and
  processes while the queue is non-empty. (Alone, the receive after a positive length test
  cannot block.) The loop ends because every round shortens the queue.
\<close>

function drain_loop :: "memory \<Rightarrow> memory" where
  "drain_loop m =
     (case queue (worker m) of
        [] \<Rightarrow> m
      | event # q \<Rightarrow> drain_loop (processEvent (m\<lparr>worker := (worker m)\<lparr>queue := q\<rparr>\<rparr>) event))"
  by pat_completeness auto
termination
  by (relation "measure (\<lambda>m. length (queue (worker m)))")
     (auto simp: processEvent_def MarkProcessed_def split: option.splits)

definition Stop :: "memory \<Rightarrow> memory" where
  "Stop m = drain_loop (close_done m)"

declare drain_loop.simps [simp del]

section \<open>Concrete inputs\<close>

definition demo_config :: Config where
  "demo_config = \<lparr>Port = ''8080'', Env = ''dev'', ProcessingDelayMs = 1000\<rparr>"

definition request :: "string \<Rightarrow> EventRequest" where
  "request k = \<lparr>req_EventID = k, req_Payload = ''{}''\<rparr>"

text \<open>One hundred requests with the distinct keys e, ee, eee, ...\<close>

definition hundred_requests :: "EventRequest list" where
  "hundred_requests = map (\<lambda>n. request (replicate (Suc n) CHR ''e'')) [0..<100]"

text \<open>The memory after one accepted POST for evt_001 on a fresh process.\<close>

definition after_evt_001 :: memory where
  "after_evt_001 = snd (Submit (New_App demo_config) (request ''evt_001''))"

text \<open>The memory after the hundred requests were accepted with no worker started.\<close>

definition full_memory :: memory where
  "full_memory = exec (map Op_Submit hundred_requests) (New_App demo_config)"

section \<open>Properties of the store and of the submission flow\<close>

lemma status_values_distinct:
  "StatusAccepted \<noteq> StatusProcessed" "StatusAccepted \<noteq> ''''" "StatusProcessed \<noteq> ''''"
  by (simp_all add: StatusAccepted_def StatusProcessed_def)

lemma Submit_empty:
  "req_EventID req = '''' \<Longrightarrow> Submit m req = (Returns (BadRequest ''event_id is required''), m)"
  by (simp add: Submit_def)

lemma Submit_conflict:
  "req_EventID req \<noteq> '''' \<Longrightarrow> Exists m (req_EventID req) \<Longrightarrow> Submit m req = (Returns Conflict, m)"
  by (simp add: Submit_def)

lemma Submit_new:
  assumes "req_EventID req \<noteq> ''''" "\<not> Exists m (req_EventID req)"
  shows "Submit m req =
           (if length (queue (worker m)) < queue_capacity
            then (Returns Accepted,
                  (saved m req)\<lparr>worker := (worker m)\<lparr>queue := queue (worker m) @ [next_addr m]\<rparr>\<rparr>)
            else (Blocks, saved m req))"
  using assms
  by (simp add: Submit_def new_Event_def Save_def Enqueue_def saved_def)

lemma store_inv_saved:
  assumes "store_inv m" "req_EventID req \<noteq> ''''"
  shows "store_inv (saved m req)"
  using assms unfolding store_inv_def saved_def
  by (auto simp: less_Suc_eq)

lemma store_inv_worker_update [simp]:
  "store_inv (m\<lparr>worker := w\<rparr>) = store_inv m"
  by (simp add: store_inv_def)

lemma store_inv_Submit: "store_inv m \<Longrightarrow> store_inv (snd (Submit m req))"
  by (cases "req_EventID req = ''''"; cases "Exists m (req_EventID req)")
     (simp_all add: Submit_empty Submit_conflict Submit_new store_inv_saved)

lemma store_inv_MarkProcessed: "store_inv m \<Longrightarrow> store_inv (MarkProcessed m k)"
  unfolding store_inv_def MarkProcessed_def
  by (auto split: option.splits)

lemma store_inv_New_App: "store_inv (New_App config)"
  by (simp add: store_inv_def New_App_def New_Store_def)

lemma store_inv_apply_op: "store_inv m \<Longrightarrow> store_inv (apply_op x m)"
  by (cases x) (simp_all add: store_inv_Submit store_inv_MarkProcessed)

lemma store_inv_exec: "store_inv m \<Longrightarrow> store_inv (exec xs m)"
  by (induction xs arbitrary: m) (simp_all add: store_inv_apply_op)

lemma apply_op_keeps:
  assumes "store_inv m" "events (store m) k = Some a"
  shows "events (store (apply_op x m)) k = Some a \<and>
         EventID (heap (apply_op x m) a) = EventID (heap m a) \<and>
         Payload (heap (apply_op x m) a) = Payload (heap m a) \<and>
         (Status (heap (apply_op x m) a) = Status (heap m a) \<or>
          Status (heap m a) = StatusAccepted \<and> Status (heap (apply_op x m) a) = StatusProcessed)"
proof (cases x)
  case (Op_Submit req)
  from assms have a: "a < next_addr m" and k: "k \<noteq> ''''"
    by (auto simp: store_inv_def)
  consider "req_EventID req = ''''"
    | "req_EventID req \<noteq> ''''" "Exists m (req_EventID req)"
    | "req_EventID req \<noteq> ''''" "\<not> Exists m (req_EventID req)"
    by blast
  then show ?thesis
  proof cases
    case 1
    then show ?thesis using Op_Submit assms(2) by (simp add: Submit_empty)
  next
    case 2
    then show ?thesis using Op_Submit assms(2) by (simp add: Submit_conflict)
  next
    case 3
    then have "k \<noteq> req_EventID req" using assms(2) by (auto simp: Exists_def)
    then show ?thesis using Op_Submit assms(2) a 3
      by (simp add: Submit_new saved_def)
  qed
next
  case (Op_MarkProcessed k')
  from assms have "Status (heap m a) = StatusAccepted \<or> Status (heap m a) = StatusProcessed"
    by (auto simp: store_inv_def)
  then show ?thesis using Op_MarkProcessed assms(2)
    by (auto simp: MarkProcessed_def split: option.splits)
qed (use assms in simp_all)

lemma exec_keeps:
  assumes "store_inv m" "events (store m) k = Some a"
  shows "events (store (exec xs m)) k = Some a \<and>
         EventID (heap (exec xs m) a) = EventID (heap m a) \<and>
         Payload (heap (exec xs m) a) = Payload (heap m a) \<and>
         (Status (heap (exec xs m) a) = Status (heap m a) \<or>
          Status (heap m a) = StatusAccepted \<and> Status (heap (exec xs m) a) = StatusProcessed)"
  using assms
proof (induction xs arbitrary: m)
  case Nil
  then show ?case by simp
next
  case (Cons x xs)
  have inv': "store_inv (apply_op x m)"
    using Cons.prems(1) by (rule store_inv_apply_op)
  have one: "events (store (apply_op x m)) k = Some a \<and>
         EventID (heap (apply_op x m) a) = EventID (heap m a) \<and>
         Payload (heap (apply_op x m) a) = Payload (heap m a) \<and>
         (Status (heap (apply_op x m) a) = Status (heap m a) \<or>
          Status (heap m a) = StatusAccepted \<and> Status (heap (apply_op x m) a) = StatusProcessed)"
    using Cons.prems by (rule apply_op_keeps)
  from one have ev: "events (store (apply_op x m)) k = Some a" by simp
  have rest: "events (store (exec xs (apply_op x m))) k = Some a \<and>
         EventID (heap (exec xs (apply_op x m)) a) = EventID (heap (apply_op x m) a) \<and>
         Payload (heap (exec xs (apply_op x m)) a) = Payload (heap (apply_op x m) a) \<and>
         (Status (heap (exec xs (apply_op x m)) a) = Status (heap (apply_op x m) a) \<or>
          Status (heap (apply_op x m) a) = StatusAccepted \<and>
          Status (heap (exec xs (apply_op x m)) a) = StatusProcessed)"
    using Cons.IH [OF inv' ev] .
  show ?case using one rest status_values_distinct(1)
    by (simp; metis)
qed

text \<open>
  Along every sequence of the core operations (Submit, MarkProcessed, GetStatus, List), each
  run to completion with nothing scheduled in between, a key of the table stays in the
  table, bound to the same record with the same key and payload; the status of the record
  either stays what it was or has gone from \<open>accepted\<close> to \<open>processed\<close>, and once
  \<open>processed\<close> it stays \<open>processed\<close>.
\<close>
lemma exec_keeps_records:
  assumes "store_inv m" "events (store m) k = Some a"
  shows "events (store (exec xs m)) k = Some a \<and>
         EventID (heap (exec xs m) a) = k \<and>
         Payload (heap (exec xs m) a) = Payload (heap m a) \<and>
         (Status (heap (exec xs m) a) = Status (heap m a) \<or>
          Status (heap m a) = StatusAccepted \<and> Status (heap (exec xs m) a) = StatusProcessed) \<and>
         (Status (heap m a) = StatusProcessed \<longrightarrow> Status (heap (exec xs m) a) = StatusProcessed) \<and>
         store_inv (exec xs m)"
proof -
  have "EventID (heap m a) = k" using assms by (auto simp: store_inv_def)
  then show ?thesis
    using exec_keeps [OF assms, of xs] store_inv_exec [OF assms(1), of xs] status_values_distinct(1)
    by auto
qed

lemma after_evt_001_inv: "store_inv after_evt_001"
  unfolding after_evt_001_def by (rule store_inv_Submit [OF store_inv_New_App])

lemma after_evt_001_eq:
  "after_evt_001 =
     \<lparr>heap = (\<lambda>_. zero_Event)(0 := \<lparr>EventID = ''evt_001'', Payload = ''{}'', Status = StatusAccepted\<rparr>),
      next_addr = Suc 0, store = \<lparr>events = [''evt_001'' \<mapsto> 0]\<rparr>,
      worker = \<lparr>queue = [0], processingDelay = 1000000000, running = False, done_closed = False\<rparr>\<rparr>"
  by (simp add: after_evt_001_def Submit_def request_def New_App_def New_Store_def New_Worker_def
      demo_config_def Exists_def new_Event_def Save_def Enqueue_def queue_capacity_def int64_def)

text \<open>
  Claim C6. A POST whose event_id is empty is answered 400 "event_id is required" at once,
  whatever the payload, and the memory is left as it was: the table gains no entry and
  nothing is sent on the queue. This holds of the uninterrupted call, of the whole handler
  and of the single step the handler's goroutine takes.
\<close>
theorem empty_key_is_invalid_input:
  "Submit m \<lparr>req_EventID = '''', req_Payload = payload\<rparr>
     = (Returns (BadRequest ''event_id is required''), m) \<and>
   handleEvents m POST (Some \<lparr>req_EventID = '''', req_Payload = payload\<rparr>) ks
     = (Returns (BadRequest ''event_id is required''), m) \<and>
   handler_step (AtCheck \<lparr>req_EventID = '''', req_Payload = payload\<rparr>) m
     = Some (Responded (BadRequest ''event_id is required''), m)"
  by (simp add: Submit_def handleEvents_def)

text \<open>
  Claim C5. A POST whose event_id is already in the table is answered 409 Conflict and the
  memory is left as it was: no record is allocated, no record is changed, nothing is sent
  on the queue. The check is one step of the handler's goroutine, after which it has
  responded. The table is one that the program can have built (\<open>store_inv\<close>).
\<close>
theorem duplicate_is_conflict_without_mutation:
  assumes "store_inv m" "Exists m (req_EventID req)"
  shows "Submit m req = (Returns Conflict, m) \<and>
         handleEvents m POST (Some req) ks = (Returns Conflict, m) \<and>
         handler_step (AtCheck req) m = Some (Responded Conflict, m)"
proof -
  from assms have "req_EventID req \<noteq> ''''"
    by (auto simp: store_inv_def Exists_def)
  then show ?thesis using assms(2)
    by (simp add: Submit_def handleEvents_def)
qed

theorem duplicate_is_conflict_witness:
  "store_inv after_evt_001 \<and> Exists after_evt_001 (req_EventID (request ''evt_001'')) \<and>
   Submit after_evt_001 (request ''evt_001'') = (Returns Conflict, after_evt_001)"
proof -
  have e: "Exists after_evt_001 (req_EventID (request ''evt_001''))"
    by (simp add: after_evt_001_eq Exists_def request_def)
  show ?thesis
    using duplicate_is_conflict_without_mutation [OF after_evt_001_inv e, of "[]"]
      after_evt_001_inv e by simp
qed

text \<open>
  Claim C8. \<^verbatim>\<open>MarkProcessed\<close> on a key of the table makes the status of its record
  \<open>processed\<close> and touches neither the table, the worker, nor any record's key or payload;
  on an unknown key it changes nothing; \<^verbatim>\<open>GetStatus\<close> on an unknown key answers the empty
  status with found = false.
\<close>
theorem MarkProcessed_known_and_unknown_key:
  "(Exists m k \<longrightarrow>
      GetStatus (MarkProcessed m k) k = (StatusProcessed, True) \<and>
      store (MarkProcessed m k) = store m \<and>
      worker (MarkProcessed m k) = worker m \<and>
      next_addr (MarkProcessed m k) = next_addr m \<and>
      EventID (heap (MarkProcessed m k) a) = EventID (heap m a) \<and>
      Payload (heap (MarkProcessed m k) a) = Payload (heap m a)) \<and>
   (\<not> Exists m k \<longrightarrow> MarkProcessed m k = m \<and> GetStatus m k = ('''', False))"
  by (auto simp: Exists_def MarkProcessed_def GetStatus_def)

theorem MarkProcessed_known_and_unknown_key_witness:
  "Exists after_evt_001 ''evt_001'' \<and>
   GetStatus (MarkProcessed after_evt_001 ''evt_001'') ''evt_001'' = (StatusProcessed, True) \<and>
   \<not> Exists after_evt_001 ''evt_404'' \<and>
   MarkProcessed after_evt_001 ''evt_404'' = after_evt_001 \<and>
   GetStatus after_evt_001 ''evt_404'' = ('''', False)"
proof -
  have e: "Exists after_evt_001 ''evt_001''" and n: "\<not> Exists after_evt_001 ''evt_404''"
    by (simp_all add: after_evt_001_eq Exists_def)
  show ?thesis
    using MarkProcessed_known_and_unknown_key [of after_evt_001 "''evt_001''" 0]
      MarkProcessed_known_and_unknown_key [of after_evt_001 "''evt_404''" 0] e n
    by simp
qed

text \<open>
  Claim C10. \<^verbatim>\<open>Exists\<close> answers true exactly when \<^verbatim>\<open>GetStatus\<close> answers found = true; when
  found is false the status returned is the empty string, which is neither \<open>accepted\<close> nor
  \<open>processed\<close>.
\<close>
theorem Exists_iff_GetStatus_found:
  "Exists m k = snd (GetStatus m k) \<and>
   (\<not> snd (GetStatus m k) \<longrightarrow> fst (GetStatus m k) = '''') \<and>
   '''' \<noteq> StatusAccepted \<and> '''' \<noteq> StatusProcessed"
  by (auto simp: Exists_def GetStatus_def StatusAccepted_def StatusProcessed_def
      split: option.splits)

theorem Exists_iff_GetStatus_found_witness:
  "Exists after_evt_001 ''evt_001'' = snd (GetStatus after_evt_001 ''evt_001'') \<and>
   \<not> snd (GetStatus after_evt_001 ''evt_404'') \<and>
   fst (GetStatus after_evt_001 ''evt_404'') = ''''"
proof -
  have n: "\<not> snd (GetStatus after_evt_001 ''evt_404'')"
    by (simp add: after_evt_001_eq GetStatus_def)
  show ?thesis
    using Exists_iff_GetStatus_found [of after_evt_001 "''evt_001''"]
      Exists_iff_GetStatus_found [of after_evt_001 "''evt_404''"] n
    by simp
qed

section \<open>Listing\<close>

lemma map_filter_total:
  "set ks \<subseteq> dom f \<Longrightarrow> map Some (List.map_filter f ks) = map f ks"
  by (induction ks) auto

lemma List_events_entries:
  assumes "range_order m ks"
  shows "map Some (List_events m ks) = map (events (store m)) ks"
  using assms by (simp add: range_order_def List_events_def map_filter_total)

lemma List_events_member:
  assumes "range_order m ks" "a \<in> set (List_events m ks)"
  shows "\<exists>k. events (store m) k = Some a"
proof -
  from assms(2) have "Some a \<in> set (map Some (List_events m ks))" by simp
  then have "Some a \<in> set (map (events (store m)) ks)"
    using List_events_entries [OF assms(1)] by simp
  then show ?thesis by auto
qed

lemma List_events_keys:
  assumes "store_inv m" "range_order m ks"
  shows "map EventID (records m (List_events m ks)) = ks"
proof -
  have "\<forall>k \<in> set ks. \<exists>a. events (store m) k = Some a"
    using assms(2) by (auto simp: range_order_def)
  then have "map (\<lambda>x. map_option (\<lambda>a. EventID (heap m a)) x) (map (events (store m)) ks) = map Some ks"
    using assms(1) by (induction ks) (auto simp: store_inv_def)
  then have "map (\<lambda>x. map_option (\<lambda>a. EventID (heap m a)) x) (map Some (List_events m ks)) = map Some ks"
    using List_events_entries [OF assms(2)] by simp
  then have "map Some (map EventID (records m (List_events m ks))) = map Some ks"
    by (simp add: records_def comp_def)
  then show ?thesis
    using inj_map_eq_map [OF inj_Some] by blast
qed

lemma records_after_Submit:
  assumes "store_inv m" "range_order m ks"
  shows "records (snd (Submit m req)) (List_events m ks) = records m (List_events m ks)"
proof -
  have old: "\<forall>a \<in> set (List_events m ks). a < next_addr m"
    using List_events_member [OF assms(2)] assms(1) by (auto simp: store_inv_def)
  consider "req_EventID req = ''''"
    | "req_EventID req \<noteq> ''''" "Exists m (req_EventID req)"
    | "req_EventID req \<noteq> ''''" "\<not> Exists m (req_EventID req)"
    by blast
  then show ?thesis
  proof cases
    case 1
    then show ?thesis by (simp add: Submit_empty)
  next
    case 2
    then show ?thesis by (simp add: Submit_conflict)
  next
    case 3
    then show ?thesis using old
      by (auto simp: Submit_new saved_def records_def)
  qed
qed

lemma records_after_MarkProcessed:
  assumes "store_inv m" "range_order m ks"
  shows "records (MarkProcessed m k) (List_events m ks) =
         map (\<lambda>e. if EventID e = k then e\<lparr>Status := StatusProcessed\<rparr> else e)
           (records m (List_events m ks))"
proof -
  have "heap (MarkProcessed m k) a =
        (if EventID (heap m a) = k then (heap m a)\<lparr>Status := StatusProcessed\<rparr> else heap m a)"
    if "a \<in> set (List_events m ks)" for a
  proof -
    from List_events_member [OF assms(2) that] obtain k' where k': "events (store m) k' = Some a"
      by blast
    with assms(1) have id: "EventID (heap m a) = k'" by (auto simp: store_inv_def)
    show ?thesis
    proof (cases "events (store m) k")
      case None
      with k' have "k' \<noteq> k" by auto
      with None id show ?thesis by (simp add: MarkProcessed_def)
    next
      case (Some b)
      with assms(1) have "EventID (heap m b) = k" by (auto simp: store_inv_def)
      with Some id k' show ?thesis by (auto simp: MarkProcessed_def)
    qed
  qed
  then show ?thesis by (simp add: records_def)
qed

lemma after_evt_001_order: "range_order after_evt_001 [''evt_001'']"
  by (auto simp: range_order_def after_evt_001_eq split: if_splits)

text \<open>
  The records seen through a returned slice change when \<^verbatim>\<open>MarkProcessed\<close> runs afterwards.
\<close>

theorem List_is_not_a_snapshot:
  "range_order after_evt_001 [''evt_001''] \<and>
   records after_evt_001 (List_events after_evt_001 [''evt_001''])
     = [\<lparr>EventID = ''evt_001'', Payload = ''{}'', Status = StatusAccepted\<rparr>] \<and>
   records (MarkProcessed after_evt_001 ''evt_001'') (List_events after_evt_001 [''evt_001''])
     = [\<lparr>EventID = ''evt_001'', Payload = ''{}'', Status = StatusProcessed\<rparr>] \<and>
   records (MarkProcessed after_evt_001 ''evt_001'') (List_events after_evt_001 [''evt_001''])
     \<noteq> records after_evt_001 (List_events after_evt_001 [''evt_001''])"
  using after_evt_001_order
  by (simp add: List_events_def after_evt_001_eq records_def MarkProcessed_def
      StatusAccepted_def StatusProcessed_def)

section \<open>Interleavings: the worker's lifecycle and the races\<close>

lemma run_snoc:
  "run (as @ [a]) s = (case run as s of None \<Rightarrow> None | Some s' \<Rightarrow> step a s')"
  by (induction as arbitrary: s) (auto split: option.splits)

lemma run_append:
  "run (as @ bs) s = (case run as s of None \<Rightarrow> None | Some s' \<Rightarrow> run bs s')"
  by (induction as arbitrary: s) (auto split: option.splits)

lemma handler_step_AtSave:
  "handler_step (AtSave req) m = Some (AtEnqueue (next_addr m), saved m req)"
  by (simp add: new_Event_def Save_def saved_def)

lemma handler_step_worker_flags:
  assumes "handler_step pc m = Some (pc', m')"
  shows "running (worker m') = running (worker m) \<and> done_closed (worker m') = done_closed (worker m)"
  using assms
  by (cases pc)
     (auto simp: handler_step_AtSave saved_def Enqueue_def simp del: handler_step.simps(2)
       split: if_splits)

lemma receive_frame:
  assumes "receive m = Some (e, m')"
  shows "heap m' = heap m \<and> store m' = store m \<and> next_addr m' = next_addr m \<and>
         running (worker m') = running (worker m) \<and>
         done_closed (worker m') = done_closed (worker m) \<and>
         queue (worker m) = e # queue (worker m')"
  using assms by (auto simp: receive_def split: list.splits)

lemma processEvent_frame:
  "store (processEvent m e) = store m \<and> worker (processEvent m e) = worker m \<and>
   next_addr (processEvent m e) = next_addr m"
  by (simp add: processEvent_def MarkProcessed_def split: option.splits)

lemma lifecycle_step:
  assumes "step a s = Some s'"
    and "IsRunning (mem s) = (loop s \<noteq> NotStarted \<and> loop s \<noteq> Exited)"
  shows "IsRunning (mem s') = (loop s' \<noteq> NotStarted \<and> loop s' \<noteq> Exited) \<and>
         (loop s' = NotStarted) = (loop s = NotStarted \<and> a \<noteq> CallStart) \<and>
         (loop s' = Exited) = (loop s = Exited \<or> a = LoopDone)"
proof (cases a)
  case (Handler i)
  then show ?thesis using assms handler_step_worker_flags
    by (fastforce simp: IsRunning_def split: if_splits option.splits)
next
  case CallStart
  then show ?thesis using assms by (auto simp: IsRunning_def Start_def split: if_splits)
next
  case LoopRecv
  then show ?thesis using assms receive_frame
    by (fastforce simp: IsRunning_def split: if_splits option.splits)
next
  case LoopDone
  then show ?thesis using assms by (auto simp: IsRunning_def loop_exit_def split: if_splits)
next
  case LoopFinish
  then show ?thesis using assms processEvent_frame
    by (auto simp: IsRunning_def split: loop_pc.splits)
next
  case StopClose
  then show ?thesis using assms by (auto simp: IsRunning_def close_done_def split: if_splits)
next
  case StopLen
  then show ?thesis using assms by (auto simp: IsRunning_def split: if_splits)
next
  case StopRecv
  then show ?thesis using assms receive_frame
    by (fastforce simp: IsRunning_def split: if_splits option.splits)
next
  case StopFinish
  then show ?thesis using assms processEvent_frame
    by (auto simp: IsRunning_def split: stop_pc.splits)
qed

lemma lifecycle_run:
  assumes "run as (initial config reqs) = Some s"
  shows "IsRunning (mem s) = (loop s \<noteq> NotStarted \<and> loop s \<noteq> Exited) \<and>
         (loop s = NotStarted) = (CallStart \<notin> set as) \<and>
         (loop s = Exited) = (LoopDone \<in> set as)"
  using assms
proof (induction as arbitrary: s rule: rev_induct)
  case Nil
  then show ?case
    by (auto simp: initial_def IsRunning_def New_App_def New_Worker_def)
next
  case (snoc a as)
  from snoc.prems obtain s1 where s1: "run as (initial config reqs) = Some s1"
    and st: "step a s1 = Some s"
    by (auto simp: run_snoc split: option.splits)
  from snoc.IH [OF s1] lifecycle_step [OF st] show ?case
    by auto
qed

text \<open>
  Claim C4, as the code has it. In every state the process can reach, \<^verbatim>\<open>IsRunning\<close> is true
  exactly when \<^verbatim>\<open>Start\<close> has been called and the loop has not yet taken the \<^verbatim>\<open>done\<close> case of
  its select: false before \<^verbatim>\<open>Start\<close>, true as soon as \<^verbatim>\<open>Start\<close> has set the flag, false once
  the loop has observed the shutdown signal. \<^verbatim>\<open>Stop\<close> does not write the flag and does not
  wait for the loop.
\<close>
theorem IsRunning_follows_the_loop:
  assumes "run as (initial config reqs) = Some s"
  shows "IsRunning (mem s) = (CallStart \<in> set as \<and> LoopDone \<notin> set as) \<and>
         IsRunning (mem s) = (loop s \<noteq> NotStarted \<and> loop s \<noteq> Exited)"
  using lifecycle_run [OF assms] by auto

theorem IsRunning_follows_the_loop_witness:
  "run [CallStart, StopClose, StopLen, LoopDone] (initial demo_config [])
     = Some \<lparr>mem = (New_App demo_config)\<lparr>worker :=
                (New_Worker 1000)\<lparr>running := False, done_closed := True\<rparr>\<rparr>,
             handlers = [], loop = Exited, stopper = Returned\<rparr> \<and>
   \<not> IsRunning ((New_App demo_config)\<lparr>worker :=
                (New_Worker 1000)\<lparr>running := False, done_closed := True\<rparr>\<rparr>)"
proof -
  have r: "run [CallStart, StopClose, StopLen, LoopDone] (initial demo_config [])
     = Some \<lparr>mem = (New_App demo_config)\<lparr>worker :=
                (New_Worker 1000)\<lparr>running := False, done_closed := True\<rparr>\<rparr>,
             handlers = [], loop = Exited, stopper = Returned\<rparr>"
    by (simp add: initial_def Start_def close_done_def loop_exit_def New_App_def New_Worker_def
        demo_config_def)
  show ?thesis
    using IsRunning_follows_the_loop [OF r] r by simp
qed

theorem IsRunning_true_after_Stop_returned:
  "map_option (\<lambda>s. (stopper s, IsRunning (mem s)))
     (run [CallStart, StopClose, StopLen] (initial demo_config [])) = Some (Returned, True)"
  by (simp add: initial_def Start_def close_done_def New_App_def New_Worker_def IsRunning_def)

text \<open>
  Claim C1 at a failing schedule. Two handlers serve POSTs with the same event_id; both run
  \<^verbatim>\<open>Exists\<close> before either runs \<^verbatim>\<open>Save\<close>. Both respond 202 Accepted, the second \<^verbatim>\<open>Save\<close>
  overwrites the table entry and both records are queued.
\<close>
theorem concurrent_duplicates_both_accepted:
  "map_option (\<lambda>s. (handlers s, events (store (mem s)) ''evt_001'', queue (worker (mem s))))
     (run [Handler 0, Handler 1, Handler 0, Handler 1, Handler 0, Handler 1]
        (initial demo_config [request ''evt_001'', request ''evt_001'']))
   = Some ([Responded Accepted, Responded Accepted], Some 1, [0, 1])"
  by (simp add: initial_def request_def New_App_def New_Store_def New_Worker_def Exists_def
      new_Event_def Save_def Enqueue_def queue_capacity_def)

text \<open>
  Claim C7 at a failing schedule. Two handlers serve POSTs with the same event_id and the
  payloads p0 and p1; the second runs its check before the first saves. The first is saved,
  queued and processed: the key is bound to record 0 with payload p0 and status
  \<open>processed\<close>. Then the second handler runs its \<^verbatim>\<open>Save\<close>: the key is bound to record 1 with
  payload p1, and its status is \<open>accepted\<close> again.
\<close>
theorem racing_duplicate_rebinds_key_and_reverts_status:
  "map_option
     (\<lambda>s. (events (store (mem s)) ''evt_001'', GetStatus (mem s) ''evt_001'',
           map_option (\<lambda>a. Payload (heap (mem s) a)) (events (store (mem s)) ''evt_001'')))
     (run [CallStart, Handler 1, Handler 0, Handler 0, Handler 0, LoopRecv, LoopFinish]
        (initial demo_config
           [\<lparr>req_EventID = ''evt_001'', req_Payload = ''p0''\<rparr>,
            \<lparr>req_EventID = ''evt_001'', req_Payload = ''p1''\<rparr>]))
   = Some (Some 0, (StatusProcessed, True), Some ''p0'') \<and>
   map_option
     (\<lambda>s. (events (store (mem s)) ''evt_001'', GetStatus (mem s) ''evt_001'',
           map_option (\<lambda>a. Payload (heap (mem s) a)) (events (store (mem s)) ''evt_001'')))
     (run ([CallStart, Handler 1, Handler 0, Handler 0, Handler 0, LoopRecv, LoopFinish] @ [Handler 1])
        (initial demo_config
           [\<lparr>req_EventID = ''evt_001'', req_Payload = ''p0''\<rparr>,
            \<lparr>req_EventID = ''evt_001'', req_Payload = ''p1''\<rparr>]))
   = Some (Some 1, (StatusAccepted, True), Some ''p1'')"
  by (simp add: initial_def New_App_def New_Store_def New_Worker_def Exists_def
      new_Event_def Save_def Enqueue_def queue_capacity_def Start_def receive_def
      processEvent_def MarkProcessed_def GetStatus_def)

text \<open>
  Claim C2 at a failing schedule. The loop is busy with evt_A while evt_B and evt_C are
  queued; \<^verbatim>\<open>Stop\<close> is called with these two items in the queue and drains evt_B; the loop
  finishes evt_A and its select, with both cases ready, receives evt_C; \<^verbatim>\<open>Stop\<close> finishes
  evt_B, finds the queue empty and returns while evt_C is still \<open>accepted\<close>.
\<close>
theorem Stop_returns_before_queued_event_is_processed:
  "map_option (\<lambda>s. (stopper s, queue (worker (mem s))))
     (run [CallStart, Handler 0, Handler 0, Handler 0, LoopRecv,
           Handler 1, Handler 1, Handler 1, Handler 2, Handler 2, Handler 2]
        (initial demo_config [request ''evt_A'', request ''evt_B'', request ''evt_C'']))
   = Some (NotCalled, [1, 2]) \<and>
   map_option (\<lambda>s. (stopper s, GetStatus (mem s) ''evt_B'', GetStatus (mem s) ''evt_C'', loop s))
     (run ([CallStart, Handler 0, Handler 0, Handler 0, LoopRecv,
            Handler 1, Handler 1, Handler 1, Handler 2, Handler 2, Handler 2] @
           [StopClose, StopLen, StopRecv, LoopFinish, LoopRecv, StopFinish, StopLen])
        (initial demo_config [request ''evt_A'', request ''evt_B'', request ''evt_C'']))
   = Some (Returned, (StatusProcessed, True), (StatusAccepted, True), Processing 2)"
  by (simp add: initial_def request_def New_App_def New_Store_def New_Worker_def Exists_def
      new_Event_def Save_def Enqueue_def queue_capacity_def Start_def receive_def close_done_def
      processEvent_def MarkProcessed_def GetStatus_def)

section \<open>Visibility of a submitted event\<close>

lemma handler_step_Exists:
  assumes "handler_step pc m = Some (pc', m')" "Exists m k"
  shows "Exists m' k"
  using assms
  by (cases pc)
     (auto simp: handler_step_AtSave saved_def Enqueue_def Exists_def
       simp del: handler_step.simps(2) split: if_splits)

lemma step_Exists:
  assumes "step a s = Some s'" "Exists (mem s) k"
  shows "Exists (mem s') k"
proof (cases a)
  case (Handler i)
  then show ?thesis using assms handler_step_Exists
    by (fastforce split: if_splits option.splits)
next
  case LoopRecv
  then show ?thesis using assms receive_frame
    by (fastforce simp: Exists_def split: if_splits option.splits)
next
  case StopRecv
  then show ?thesis using assms receive_frame
    by (fastforce simp: Exists_def split: if_splits option.splits)
next
  case LoopFinish
  then show ?thesis using assms processEvent_frame
    by (auto simp: Exists_def split: loop_pc.splits)
next
  case StopFinish
  then show ?thesis using assms processEvent_frame
    by (auto simp: Exists_def split: stop_pc.splits)
qed (use assms in \<open>auto simp: Exists_def Start_def loop_exit_def close_done_def split: if_splits\<close>)

lemma handler_step_inv:
  assumes "handler_step pc m = Some (pc', m')" "store_inv m"
    and "\<forall>req. pc = AtSave req \<longrightarrow> req_EventID req \<noteq> ''''"
  shows "store_inv m' \<and> (\<forall>req. pc' = AtSave req \<longrightarrow> req_EventID req \<noteq> '''')"
  using assms
  by (cases pc)
     (auto simp: handler_step_AtSave store_inv_saved Enqueue_def
       simp del: handler_step.simps(2) split: if_splits)

lemma store_inv_processEvent: "store_inv m \<Longrightarrow> store_inv (processEvent m e)"
  by (simp add: processEvent_def store_inv_MarkProcessed)

lemma store_inv_receive: "receive m = Some (e, m') \<Longrightarrow> store_inv m' = store_inv m"
  by (auto simp: receive_def split: list.splits)

lemma system_inv_step:
  assumes "step a s = Some s'" "system_inv s"
  shows "system_inv s'"
proof (cases a)
  case (Handler i)
  with assms(1) obtain pc' m' where i: "i < length (handlers s)"
    and h: "handler_step (handlers s ! i) (mem s) = Some (pc', m')"
    and s': "s' = s\<lparr>mem := m', handlers := (handlers s)[i := pc']\<rparr>"
    by (auto split: if_splits option.splits)
  from i have "handlers s ! i \<in> set (handlers s)" by simp
  with assms(2) have pc: "\<forall>req. handlers s ! i = AtSave req \<longrightarrow> req_EventID req \<noteq> ''''"
    by (auto simp: system_inv_def)
  from assms(2) have "store_inv (mem s)" by (simp add: system_inv_def)
  from handler_step_inv [OF h this pc]
  have m': "store_inv m'" and pc': "\<forall>req. pc' = AtSave req \<longrightarrow> req_EventID req \<noteq> ''''"
    by simp_all
  have "set ((handlers s)[i := pc']) \<subseteq> insert pc' (set (handlers s))"
    by (rule set_update_subset_insert)
  with pc' assms(2) have "\<forall>req. AtSave req \<in> set ((handlers s)[i := pc']) \<longrightarrow> req_EventID req \<noteq> ''''"
    by (auto simp: system_inv_def)
  with m' s' show ?thesis by (simp add: system_inv_def)
next
  case LoopRecv
  then show ?thesis using assms store_inv_receive
    by (fastforce simp: system_inv_def split: if_splits option.splits)
next
  case StopRecv
  then show ?thesis using assms store_inv_receive
    by (fastforce simp: system_inv_def split: if_splits option.splits)
next
  case LoopFinish
  then show ?thesis using assms store_inv_processEvent
    by (auto simp: system_inv_def split: loop_pc.splits)
next
  case StopFinish
  then show ?thesis using assms store_inv_processEvent
    by (auto simp: system_inv_def split: stop_pc.splits)
qed (use assms in \<open>auto simp: system_inv_def Start_def loop_exit_def close_done_def split: if_splits\<close>)

lemma run_preserves:
  assumes "run as s = Some s'" "system_inv s" "Exists (mem s) k"
  shows "system_inv s' \<and> Exists (mem s') k"
  using assms
proof (induction as arbitrary: s)
  case Nil
  then show ?case by simp
next
  case (Cons a as)
  from Cons.prems(1) obtain s1 where a: "step a s = Some s1" and r: "run as s1 = Some s'"
    by (auto split: option.splits)
  show ?case
    using Cons.IH [OF r system_inv_step [OF a Cons.prems(2)] step_Exists [OF a Cons.prems(3)]] .
qed

lemma system_inv_initial: "system_inv (initial config reqs)"
  by (auto simp: system_inv_def initial_def store_inv_New_App)

lemma GetStatus_found:
  assumes "store_inv m" "Exists m k"
  shows "GetStatus m k = (StatusAccepted, True) \<or> GetStatus m k = (StatusProcessed, True)"
proof -
  from assms(2) obtain a where a: "events (store m) k = Some a"
    by (auto simp: Exists_def)
  with assms(1) have "Status (heap m a) = StatusAccepted \<or> Status (heap m a) = StatusProcessed"
    unfolding store_inv_def by blast
  with a show ?thesis by (auto simp: GetStatus_def)
qed

lemma GetStatus_saved:
  "GetStatus (saved m req) (req_EventID req) = (StatusAccepted, True)"
  by (simp add: GetStatus_def saved_def)

lemma MarkProcessed_EventID [simp]:
  "EventID (heap (MarkProcessed m k) a) = EventID (heap m a)"
  by (simp add: MarkProcessed_def split: option.splits)

lemma processEvent_EventID [simp]:
  "EventID (heap (processEvent m e) a) = EventID (heap m a)"
  by (simp add: processEvent_def)

lemma processEvent_Exists [simp]: "Exists (processEvent m e) k = Exists m k"
  by (simp add: Exists_def processEvent_frame)

lemma flight_inv_handler:
  assumes i: "i < length (handlers s)"
    and h: "handler_step (handlers s ! i) (mem s) = Some (pc', m')"
    and inv: "flight_inv s"
  shows "flight_inv (s\<lparr>mem := m', handlers := (handlers s)[i := pc']\<rparr>)"
proof (cases "handlers s ! i")
  case (AtCheck req)
  with h have m': "m' = mem s" and pc': "\<forall>e. pc' \<noteq> AtEnqueue e"
    by (auto split: if_splits)
  have "set ((handlers s)[i := pc']) \<subseteq> insert pc' (set (handlers s))"
    by (rule set_update_subset_insert)
  with pc' have "in_flight (s\<lparr>mem := m', handlers := (handlers s)[i := pc']\<rparr>) \<subseteq> in_flight s"
    by (auto simp: in_flight_def m')
  with inv show ?thesis by (auto simp: flight_inv_def m')
next
  case (AtSave req)
  with h have m': "m' = saved (mem s) req" and pc': "pc' = AtEnqueue (next_addr (mem s))"
    by (simp_all add: handler_step_AtSave del: handler_step.simps)
  have "set ((handlers s)[i := pc']) \<subseteq> insert pc' (set (handlers s))"
    by (rule set_update_subset_insert)
  then have sub: "in_flight (s\<lparr>mem := m', handlers := (handlers s)[i := pc']\<rparr>)
      \<subseteq> insert (next_addr (mem s)) (in_flight s)"
    by (auto simp: in_flight_def m' pc' saved_def)
  have "e < next_addr m' \<and> Exists m' (EventID (heap m' e))"
    if "e \<in> insert (next_addr (mem s)) (in_flight s)" for e
  proof (cases "e = next_addr (mem s)")
    case True
    then show ?thesis by (simp add: m' saved_def Exists_def)
  next
    case False
    with that inv have "e < next_addr (mem s)" "Exists (mem s) (EventID (heap (mem s) e))"
      by (auto simp: flight_inv_def)
    then show ?thesis by (auto simp: m' saved_def Exists_def)
  qed
  with sub show ?thesis by (auto simp: flight_inv_def)
next
  case (AtEnqueue e)
  with h have m': "m' = (mem s)\<lparr>worker := (worker (mem s))\<lparr>queue := queue (worker (mem s)) @ [e]\<rparr>\<rparr>"
    by (auto simp: Enqueue_def split: if_splits)
  from i AtEnqueue have "AtEnqueue e \<in> set (handlers s)"
    by (metis nth_mem)
  moreover have "set ((handlers s)[i := pc']) \<subseteq> insert pc' (set (handlers s))"
    by (rule set_update_subset_insert)
  moreover from h AtEnqueue have "pc' = Responded Accepted"
    by (auto split: option.splits)
  ultimately have "in_flight (s\<lparr>mem := m', handlers := (handlers s)[i := pc']\<rparr>) \<subseteq> in_flight s"
    by (auto simp: in_flight_def m')
  with inv show ?thesis by (auto simp: flight_inv_def m' Exists_def)
next
  case (Responded r)
  with h show ?thesis by simp
qed

lemma flight_inv_step:
  assumes "step a s = Some s'" "flight_inv s"
  shows "flight_inv s'"
proof (cases a)
  case (Handler i)
  with assms(1) obtain pc' m' where "i < length (handlers s)"
    "handler_step (handlers s ! i) (mem s) = Some (pc', m')"
    "s' = s\<lparr>mem := m', handlers := (handlers s)[i := pc']\<rparr>"
    by (auto split: if_splits option.splits)
  with assms(2) show ?thesis by (simp add: flight_inv_handler)
next
  case CallStart
  with assms show ?thesis
    by (auto simp: flight_inv_def in_flight_def Start_def Exists_def split: if_splits)
next
  case LoopRecv
  with assms(1) obtain e m' where r: "receive (mem s) = Some (e, m')"
    and s': "s' = s\<lparr>mem := m', loop := Processing e\<rparr>"
    by (auto split: if_splits option.splits)
  from receive_frame [OF r] have "in_flight s' \<subseteq> in_flight s"
    by (auto simp: in_flight_def s')
  with assms(2) receive_frame [OF r] show ?thesis
    by (auto simp: flight_inv_def s' Exists_def)
next
  case LoopDone
  with assms show ?thesis
    by (auto simp: flight_inv_def in_flight_def loop_exit_def Exists_def split: if_splits)
next
  case LoopFinish
  with assms(1) obtain e where s': "s' = s\<lparr>mem := processEvent (mem s) e, loop := AtSelect\<rparr>"
    by (auto split: loop_pc.splits)
  have "in_flight s' \<subseteq> in_flight s"
    by (auto simp: in_flight_def s' processEvent_frame)
  with assms(2) show ?thesis
    by (auto simp: flight_inv_def s' processEvent_frame)
next
  case StopClose
  with assms show ?thesis
    by (auto simp: flight_inv_def in_flight_def close_done_def Exists_def split: if_splits)
next
  case StopLen
  with assms show ?thesis
    by (auto simp: flight_inv_def in_flight_def split: if_splits)
next
  case StopRecv
  with assms(1) obtain e m' where r: "receive (mem s) = Some (e, m')"
    and s': "s' = s\<lparr>mem := m', stopper := Draining e\<rparr>"
    by (auto split: if_splits option.splits)
  from receive_frame [OF r] have "in_flight s' \<subseteq> in_flight s"
    by (auto simp: in_flight_def s')
  with assms(2) receive_frame [OF r] show ?thesis
    by (auto simp: flight_inv_def s' Exists_def)
next
  case StopFinish
  with assms(1) obtain e where s': "s' = s\<lparr>mem := processEvent (mem s) e, stopper := AtLen\<rparr>"
    by (auto split: stop_pc.splits)
  have "in_flight s' \<subseteq> in_flight s"
    by (auto simp: in_flight_def s' processEvent_frame)
  with assms(2) show ?thesis
    by (auto simp: flight_inv_def s' processEvent_frame)
qed

lemma flight_inv_run:
  assumes "run as s = Some s'" "flight_inv s"
  shows "flight_inv s'"
  using assms
proof (induction as arbitrary: s)
  case Nil
  then show ?case by simp
next
  case (Cons a as)
  from Cons.prems(1) obtain s1 where a: "step a s = Some s1" and r: "run as s1 = Some s'"
    by (auto split: option.splits)
  show ?case using Cons.IH [OF r flight_inv_step [OF a Cons.prems(2)]] .
qed

lemma flight_inv_initial: "flight_inv (initial config reqs)"
  by (auto simp: flight_inv_def in_flight_def initial_def New_App_def New_Worker_def)

lemma queued_events_are_saved:
  assumes "run as (initial config reqs) = Some s" "e \<in> set (queue (worker (mem s)))"
  shows "Exists (mem s) (EventID (heap (mem s) e))"
  using flight_inv_run [OF assms(1) flight_inv_initial] assms(2)
  by (simp add: flight_inv_def in_flight_def)

text \<open>
  Claim C3, as the code has it. For a non-empty key that is not in the table, the handler
  passes its check, then saves, then sends: after the \<^verbatim>\<open>Save\<close> step \<^verbatim>\<open>GetStatus\<close> answers
  (\<open>accepted\<close>, true) while the queue is still as it was. When the queue has room the send
  goes through and the call returns 202 Accepted; when the queue holds 100 items the call
  is blocked at the send, with the record already saved. The uninterrupted call leaves
  \<^verbatim>\<open>GetStatus\<close> at (\<open>accepted\<close>, true), and from any reachable state in which the key is in the
  table, every later state answers found = true with status \<open>accepted\<close> or \<open>processed\<close>.
  In every state the process can reach, the key of every queued record is in the table: the
  worker cannot receive an item before \<^verbatim>\<open>Exists\<close> and \<^verbatim>\<open>GetStatus\<close> report it.
\<close>
theorem new_key_is_saved_then_enqueued:
  assumes "req_EventID req \<noteq> ''''" "\<not> Exists m (req_EventID req)"
  shows "handler_step (AtCheck req) m = Some (AtSave req, m) \<and>
         handler_step (AtSave req) m = Some (AtEnqueue (next_addr m), saved m req) \<and>
         GetStatus (saved m req) (req_EventID req) = (StatusAccepted, True) \<and>
         queue (worker (saved m req)) = queue (worker m) \<and>
         (length (queue (worker m)) < queue_capacity \<longrightarrow>
            Submit m req = (Returns Accepted,
              (saved m req)\<lparr>worker := (worker m)\<lparr>queue := queue (worker m) @ [next_addr m]\<rparr>\<rparr>) \<and>
            handler_step (AtEnqueue (next_addr m)) (saved m req) = Some (Responded Accepted,
              (saved m req)\<lparr>worker := (worker m)\<lparr>queue := queue (worker m) @ [next_addr m]\<rparr>\<rparr>)) \<and>
         (\<not> length (queue (worker m)) < queue_capacity \<longrightarrow>
            Submit m req = (Blocks, saved m req) \<and>
            handler_step (AtEnqueue (next_addr m)) (saved m req) = None) \<and>
         GetStatus (snd (Submit m req)) (req_EventID req) = (StatusAccepted, True) \<and>
         (system_inv s \<and> Exists (mem s) (req_EventID req) \<and> run as s = Some s' \<longrightarrow>
            GetStatus (mem s') (req_EventID req) = (StatusAccepted, True) \<or>
            GetStatus (mem s') (req_EventID req) = (StatusProcessed, True)) \<and>
         (run bs (initial config reqs) = Some t \<and> e \<in> set (queue (worker (mem t))) \<longrightarrow>
            Exists (mem t) (EventID (heap (mem t) e)))"
proof -
  have later: "GetStatus (mem s') (req_EventID req) = (StatusAccepted, True) \<or>
               GetStatus (mem s') (req_EventID req) = (StatusProcessed, True)"
    if "system_inv s" "Exists (mem s) (req_EventID req)" "run as s = Some s'"
  proof -
    from run_preserves [OF that(3) that(1) that(2)]
    have "store_inv (mem s')" "Exists (mem s') (req_EventID req)"
      by (simp_all add: system_inv_def)
    then show ?thesis by (rule GetStatus_found)
  qed
  have enq: "handler_step (AtEnqueue (next_addr m)) (saved m req) =
       (if length (queue (worker m)) < queue_capacity
        then Some (Responded Accepted,
              (saved m req)\<lparr>worker := (worker m)\<lparr>queue := queue (worker m) @ [next_addr m]\<rparr>\<rparr>)
        else None)"
    by (simp add: Enqueue_def saved_def)
  have got: "GetStatus (snd (Submit m req)) (req_EventID req) = (StatusAccepted, True)"
    using assms by (simp add: Submit_new GetStatus_def saved_def)
  have chk: "handler_step (AtCheck req) m = Some (AtSave req, m)"
    using assms by simp
  have q: "queue (worker (saved m req)) = queue (worker m)"
    by (simp add: saved_def)
  have seen: "run bs (initial config reqs) = Some t \<and> e \<in> set (queue (worker (mem t))) \<longrightarrow>
      Exists (mem t) (EventID (heap (mem t) e))"
    using queued_events_are_saved by blast
  show ?thesis
    using later enq got chk q handler_step_AtSave [of req m] GetStatus_saved [of m req]
      Submit_new [OF assms] seen
    by (simp del: handler_step.simps)
qed

lemma exec_Submits:
  assumes "distinct (map req_EventID rs)"
    and "\<forall>r \<in> set rs. req_EventID r \<noteq> '''' \<and> \<not> Exists m (req_EventID r)"
    and "length (queue (worker m)) + length rs \<le> queue_capacity"
  shows "length (queue (worker (exec (map Op_Submit rs) m))) = length (queue (worker m)) + length rs \<and>
         (\<forall>k. Exists (exec (map Op_Submit rs) m) k = (Exists m k \<or> k \<in> req_EventID ` set rs))"
  using assms
proof (induction rs arbitrary: m)
  case Nil
  then show ?case by simp
next
  case (Cons r rs)
  let ?m1 = "snd (Submit m r)"
  from Cons.prems have r: "req_EventID r \<noteq> ''''" "\<not> Exists m (req_EventID r)"
    and room: "length (queue (worker m)) < queue_capacity"
    by auto
  have m1: "?m1 = (saved m r)\<lparr>worker := (worker m)\<lparr>queue := queue (worker m) @ [next_addr m]\<rparr>\<rparr>"
    using room by (simp add: Submit_new [OF r])
  have ex: "Exists ?m1 k = (Exists m k \<or> k = req_EventID r)" for k
    by (auto simp: m1 saved_def Exists_def)
  have len: "length (queue (worker ?m1)) = Suc (length (queue (worker m)))"
    by (simp add: m1)
  have d: "distinct (map req_EventID rs)" using Cons.prems(1) by simp
  have "req_EventID r \<notin> req_EventID ` set rs" using Cons.prems(1) by simp
  then have "\<forall>r' \<in> set rs. req_EventID r' \<noteq> req_EventID r" by (metis imageI)
  then have fresh: "\<forall>r' \<in> set rs. req_EventID r' \<noteq> '''' \<and> \<not> Exists ?m1 (req_EventID r')"
    using Cons.prems(2) by (simp add: ex)
  have cap: "length (queue (worker ?m1)) + length rs \<le> queue_capacity"
    using Cons.prems(3) by (simp add: len)
  from Cons.IH [OF d fresh cap] show ?case
    by (auto simp: len ex)
qed

lemma hundred_requests_keys:
  "distinct (map req_EventID hundred_requests)"
  "length hundred_requests = 100"
  "r \<in> set hundred_requests \<Longrightarrow> req_EventID r \<noteq> '''' \<and> hd (req_EventID r) = CHR ''e''"
proof -
  have "inj_on (\<lambda>n. replicate (Suc n) CHR ''e'') A" for A :: "nat set"
    by (rule inj_onI) (metis length_replicate nat.inject)
  then show "distinct (map req_EventID hundred_requests)"
    by (simp add: hundred_requests_def request_def comp_def distinct_map del: replicate.simps)
  show "length hundred_requests = 100"
    by (simp add: hundred_requests_def)
  show "r \<in> set hundred_requests \<Longrightarrow> req_EventID r \<noteq> '''' \<and> hd (req_EventID r) = CHR ''e''"
    by (auto simp: hundred_requests_def request_def)
qed

lemma full_memory_facts:
  "length (queue (worker full_memory)) = 100"
  "\<not> Exists full_memory ''one_more''"
  "store_inv full_memory"
proof -
  have fresh: "\<forall>r \<in> set hundred_requests.
      req_EventID r \<noteq> '''' \<and> \<not> Exists (New_App demo_config) (req_EventID r)"
    using hundred_requests_keys(3) by (auto simp: Exists_def New_App_def New_Store_def)
  have cap: "length (queue (worker (New_App demo_config))) + length hundred_requests \<le> queue_capacity"
    by (simp add: hundred_requests_keys(2) New_App_def New_Worker_def queue_capacity_def)
  note all = exec_Submits [OF hundred_requests_keys(1) fresh cap]
  from all show "length (queue (worker full_memory)) = 100"
    by (simp add: full_memory_def hundred_requests_keys(2) New_App_def New_Worker_def)
  have "''one_more'' \<notin> req_EventID ` set hundred_requests"
  proof
    assume "''one_more'' \<in> req_EventID ` set hundred_requests"
    then obtain r where "r \<in> set hundred_requests" "req_EventID r = ''one_more''"
      by auto
    with hundred_requests_keys(3) [of r] have "hd ''one_more'' = CHR ''e''" by simp
    then show False by simp
  qed
  with all show "\<not> Exists full_memory ''one_more''"
    by (simp add: full_memory_def Exists_def New_App_def New_Store_def)
  show "store_inv full_memory"
    unfolding full_memory_def by (rule store_inv_exec [OF store_inv_New_App])
qed

theorem Submit_blocks_on_full_queue:
  "req_EventID (request ''one_more'') \<noteq> '''' \<and>
   \<not> Exists full_memory (req_EventID (request ''one_more'')) \<and>
   fst (Submit full_memory (request ''one_more'')) = Blocks \<and>
   handler_step (AtEnqueue (next_addr full_memory)) (saved full_memory (request ''one_more'')) = None"
proof -
  have k: "req_EventID (request ''one_more'') \<noteq> ''''"
    and n: "\<not> Exists full_memory (req_EventID (request ''one_more''))"
    using full_memory_facts(2) by (simp_all add: request_def)
  have "Submit full_memory (request ''one_more'') = (Blocks, saved full_memory (request ''one_more''))"
    using Submit_new [OF k n] full_memory_facts(1) by (simp add: queue_capacity_def)
  moreover have "handler_step (AtEnqueue (next_addr full_memory))
      (saved full_memory (request ''one_more'')) = None"
    using full_memory_facts(1) by (simp add: Enqueue_def saved_def queue_capacity_def)
  ultimately show ?thesis using k n by simp
qed

theorem new_key_is_saved_then_enqueued_witness:
  "req_EventID (request ''evt_001'') \<noteq> '''' \<and>
   \<not> Exists (New_App demo_config) (req_EventID (request ''evt_001'')) \<and>
   length (queue (worker (New_App demo_config))) < queue_capacity \<and>
   fst (Submit (New_App demo_config) (request ''evt_001'')) = Returns Accepted \<and>
   GetStatus (snd (Submit (New_App demo_config) (request ''evt_001''))) ''evt_001''
     = (StatusAccepted, True) \<and>
   \<not> length (queue (worker full_memory)) < queue_capacity \<and>
   Submit full_memory (request ''one_more'') = (Blocks, saved full_memory (request ''one_more'')) \<and>
   system_inv \<lparr>mem = after_evt_001, handlers = [], loop = NotStarted, stopper = NotCalled\<rparr> \<and>
   Exists after_evt_001 ''evt_001'' \<and>
   (\<exists>s'. run [CallStart, LoopRecv, LoopFinish]
            \<lparr>mem = after_evt_001, handlers = [], loop = NotStarted, stopper = NotCalled\<rparr> = Some s' \<and>
         GetStatus (mem s') ''evt_001'' = (StatusProcessed, True)) \<and>
   (\<exists>t. run [Handler 0, Handler 0, Handler 0] (initial demo_config [request ''evt_001'']) = Some t \<and>
        queue (worker (mem t)) = [0] \<and> Exists (mem t) (EventID (heap (mem t) 0)))"
proof -
  let ?s = "\<lparr>mem = after_evt_001, handlers = [], loop = NotStarted, stopper = NotCalled\<rparr>"
  have k: "req_EventID (request ''evt_001'') \<noteq> ''''"
    and n: "\<not> Exists (New_App demo_config) (req_EventID (request ''evt_001''))"
    and room: "length (queue (worker (New_App demo_config))) < queue_capacity"
    by (simp_all add: request_def Exists_def New_App_def New_Store_def New_Worker_def
        queue_capacity_def)
  have k2: "req_EventID (request ''one_more'') \<noteq> ''''"
    and n2: "\<not> Exists full_memory (req_EventID (request ''one_more''))"
    and full: "\<not> length (queue (worker full_memory)) < queue_capacity"
    using full_memory_facts by (simp_all add: request_def queue_capacity_def)
  have inv: "system_inv ?s"
    by (simp add: system_inv_def after_evt_001_inv)
  have ex: "Exists (mem ?s) (req_EventID (request ''evt_001''))"
    by (simp add: after_evt_001_eq Exists_def request_def)
  obtain s' where r: "run [CallStart, LoopRecv, LoopFinish] ?s = Some s'"
    and g: "GetStatus (mem s') ''evt_001'' = (StatusProcessed, True)"
    by (simp add: after_evt_001_eq Start_def receive_def processEvent_def MarkProcessed_def
        GetStatus_def)
  obtain t where rt: "run [Handler 0, Handler 0, Handler 0]
        (initial demo_config [request ''evt_001'']) = Some t"
    and qt: "queue (worker (mem t)) = [0]"
    by (simp add: initial_def request_def New_App_def New_Store_def New_Worker_def Exists_def
        new_Event_def Save_def Enqueue_def queue_capacity_def)
  note first = new_key_is_saved_then_enqueued [OF k n,
      of ?s "[CallStart, LoopRecv, LoopFinish]" s' "[Handler 0, Handler 0, Handler 0]"
         demo_config "[request ''evt_001'']" t 0]
  note last = new_key_is_saved_then_enqueued [OF k2 n2, of ?s "[]" ?s "[]" demo_config "[]"]
  from first rt qt have f: "\<exists>t. run [Handler 0, Handler 0, Handler 0]
        (initial demo_config [request ''evt_001'']) = Some t \<and>
        queue (worker (mem t)) = [0] \<and> Exists (mem t) (EventID (heap (mem t) 0))"
    by (simp del: run.simps handler_step.simps)
  from first room have a: "fst (Submit (New_App demo_config) (request ''evt_001'')) = Returns Accepted"
    by (simp del: run.simps handler_step.simps)
  from first have "GetStatus (snd (Submit (New_App demo_config) (request ''evt_001'')))
      (req_EventID (request ''evt_001'')) = (StatusAccepted, True)"
    by blast
  then have b: "GetStatus (snd (Submit (New_App demo_config) (request ''evt_001''))) ''evt_001''
      = (StatusAccepted, True)"
    by (simp add: request_def)
  from last full have c: "Submit full_memory (request ''one_more'')
      = (Blocks, saved full_memory (request ''one_more''))"
    by blast
  from ex have ex': "Exists after_evt_001 ''evt_001''"
    by (simp add: request_def)
  from r g have d: "\<exists>s'. run [CallStart, LoopRecv, LoopFinish] ?s = Some s' \<and>
         GetStatus (mem s') ''evt_001'' = (StatusProcessed, True)"
    by blast
  from k n room a b full c inv ex' d f show ?thesis
    by blast
qed

section \<open>A listing and what runs after it\<close>

lemma handler_step_cells:
  assumes "handler_step pc m = Some (pc', m')" "x < next_addr m"
  shows "x < next_addr m' \<and> heap m' x = heap m x"
  using assms
  by (cases pc)
     (auto simp: handler_step_AtSave saved_def Enqueue_def
       simp del: handler_step.simps(2) split: if_splits)

lemma processEvent_cell:
  "Payload (heap (processEvent m e) x) = Payload (heap m x) \<and>
   (Status (heap (processEvent m e) x) = Status (heap m x) \<or>
    Status (heap (processEvent m e) x) = StatusProcessed)"
  by (simp add: processEvent_def MarkProcessed_def split: option.splits)

lemma step_cells:
  assumes "step a s = Some s'" "x < next_addr (mem s)"
  shows "x < next_addr (mem s') \<and>
         EventID (heap (mem s') x) = EventID (heap (mem s) x) \<and>
         Payload (heap (mem s') x) = Payload (heap (mem s) x) \<and>
         (Status (heap (mem s') x) = Status (heap (mem s) x) \<or>
          Status (heap (mem s') x) = StatusProcessed)"
proof (cases a)
  case (Handler i)
  with assms(1) obtain pc' m' where
    "handler_step (handlers s ! i) (mem s) = Some (pc', m')" "mem s' = m'"
    by (auto split: if_splits option.splits)
  with handler_step_cells [OF _ assms(2)] show ?thesis by auto
next
  case LoopRecv
  with assms(1) obtain e m' where "receive (mem s) = Some (e, m')" "mem s' = m'"
    by (auto split: if_splits option.splits)
  with receive_frame assms(2) show ?thesis by fastforce
next
  case StopRecv
  with assms(1) obtain e m' where "receive (mem s) = Some (e, m')" "mem s' = m'"
    by (auto split: if_splits option.splits)
  with receive_frame assms(2) show ?thesis by fastforce
next
  case LoopFinish
  with assms(1) obtain e where "mem s' = processEvent (mem s) e"
    by (auto split: loop_pc.splits)
  with assms(2) processEvent_cell [of "mem s" e x] show ?thesis
    by (simp add: processEvent_frame)
next
  case StopFinish
  with assms(1) obtain e where "mem s' = processEvent (mem s) e"
    by (auto split: stop_pc.splits)
  with assms(2) processEvent_cell [of "mem s" e x] show ?thesis
    by (simp add: processEvent_frame)
qed (use assms in \<open>auto simp: Start_def loop_exit_def close_done_def split: if_splits\<close>)

lemma run_cells:
  assumes "run as s = Some s'" "x < next_addr (mem s)"
  shows "x < next_addr (mem s') \<and>
         EventID (heap (mem s') x) = EventID (heap (mem s) x) \<and>
         Payload (heap (mem s') x) = Payload (heap (mem s) x) \<and>
         (Status (heap (mem s') x) = Status (heap (mem s) x) \<or>
          Status (heap (mem s') x) = StatusProcessed)"
  using assms
proof (induction as arbitrary: s)
  case Nil
  then show ?case by simp
next
  case (Cons a as)
  from Cons.prems(1) obtain s1 where a: "step a s = Some s1" and r: "run as s1 = Some s'"
    by (auto split: option.splits)
  note one = step_cells [OF a Cons.prems(2)]
  from one have "x < next_addr (mem s1)" by simp
  from Cons.IH [OF r this] one show ?case by auto
qed

lemma records_MarkProcessed:
  "records (MarkProcessed m k) xs =
     map (\<lambda>a. if events (store m) k = Some a then (heap m a)\<lparr>Status := StatusProcessed\<rparr>
               else heap m a) xs"
  by (auto simp: records_def MarkProcessed_def split: option.splits)

lemma system_inv_run:
  assumes "run as s = Some s'" "system_inv s"
  shows "system_inv s'"
  using assms
proof (induction as arbitrary: s)
  case Nil
  then show ?case by simp
next
  case (Cons a as)
  from Cons.prems(1) obtain s1 where a: "step a s = Some s1" and r: "run as s1 = Some s'"
    by (auto split: option.splits)
  show ?case using Cons.IH [OF r system_inv_step [OF a Cons.prems(2)]] .
qed

text \<open>
  Claim C9, as the code has it. \<^verbatim>\<open>List\<close> returns a new slice with one pointer per key of the
  table, in the order of the range, each pointing to the table's own record for that key
  (so the records seen at the return carry key, payload and status as of the call). The
  slice is not a copy of the records. In every state the process reaches later, the records
  seen through the slice have the key and payload they had, and a status that is the one
  they had or \<open>processed\<close>. A \<^verbatim>\<open>MarkProcessed\<close> run then makes \<open>processed\<close> the record that the
  table binds to its key at that time, whether or not it is the listed one, and leaves the
  other records as they are.
\<close>
theorem List_returns_references_to_the_records:
  assumes "store_inv (mem s)" "range_order (mem s) ks" "run as s = Some s'"
  shows "map Some (List_events (mem s) ks) = map (events (store (mem s))) ks \<and>
         length (List_events (mem s) ks) = card (dom (events (store (mem s)))) \<and>
         distinct (List_events (mem s) ks) \<and>
         map EventID (records (mem s) (List_events (mem s) ks)) = ks \<and>
         map EventID (records (mem s') (List_events (mem s) ks)) = ks \<and>
         map Payload (records (mem s') (List_events (mem s) ks))
           = map Payload (records (mem s) (List_events (mem s) ks)) \<and>
         (\<forall>a \<in> set (List_events (mem s) ks).
            Status (heap (mem s') a) = Status (heap (mem s) a) \<or>
            Status (heap (mem s') a) = StatusProcessed) \<and>
         records (MarkProcessed (mem s') k) (List_events (mem s) ks) =
           map (\<lambda>a. if events (store (mem s')) k = Some a
                     then (heap (mem s') a)\<lparr>Status := StatusProcessed\<rparr>
                     else heap (mem s') a)
             (List_events (mem s) ks)"
proof -
  let ?L = "List_events (mem s) ks"
  have len: "length ?L = length ks"
    using List_events_entries [OF assms(2)] by (metis length_map)
  have card: "length ks = card (dom (events (store (mem s))))"
    using assms(2) by (metis distinct_card range_order_def)
  have keys: "map EventID (records (mem s) ?L) = ks"
    by (rule List_events_keys [OF assms(1,2)])
  then have "distinct (map EventID (records (mem s) ?L))"
    using assms(2) by (simp add: range_order_def)
  then have dist: "distinct ?L"
    by (simp add: records_def distinct_map)
  have old: "a < next_addr (mem s)" if "a \<in> set ?L" for a
    using List_events_member [OF assms(2) that] assms(1) by (auto simp: store_inv_def)
  have cells: "EventID (heap (mem s') a) = EventID (heap (mem s) a) \<and>
         Payload (heap (mem s') a) = Payload (heap (mem s) a) \<and>
         (Status (heap (mem s') a) = Status (heap (mem s) a) \<or>
          Status (heap (mem s') a) = StatusProcessed)" if "a \<in> set ?L" for a
    using run_cells [OF assms(3) old [OF that]] by simp
  have keys': "map EventID (records (mem s') ?L) = ks"
    using keys cells by (simp add: records_def cong: map_cong)
  have pay: "map Payload (records (mem s') ?L) = map Payload (records (mem s) ?L)"
    using cells by (simp add: records_def)
  from cells have st: "\<forall>a \<in> set ?L. Status (heap (mem s') a) = Status (heap (mem s) a) \<or>
            Status (heap (mem s') a) = StatusProcessed"
    by blast
  show ?thesis
    using List_events_entries [OF assms(2)] len card dist keys keys' pay st
      records_MarkProcessed [of "mem s'" k ?L]
    by simp
qed


theorem List_returns_references_witness:
  "\<exists>s s'. run [CallStart, Handler 2, Handler 0, Handler 0, Handler 0, Handler 1, Handler 1, Handler 1]
            (initial demo_config
               [request ''evt_001'', request ''evt_002'',
                \<lparr>req_EventID = ''evt_001'', req_Payload = ''p1''\<rparr>]) = Some s \<and>
          store_inv (mem s) \<and> range_order (mem s) [''evt_002'', ''evt_001''] \<and>
          List_events (mem s) [''evt_002'', ''evt_001''] = [1, 0] \<and>
          records (mem s) [1, 0] =
            [\<lparr>EventID = ''evt_002'', Payload = ''{}'', Status = StatusAccepted\<rparr>,
             \<lparr>EventID = ''evt_001'', Payload = ''{}'', Status = StatusAccepted\<rparr>] \<and>
          run [Handler 2, LoopRecv, LoopFinish] s = Some s' \<and>
          events (store (mem s')) ''evt_001'' = Some 2 \<and>
          GetStatus (mem s') ''evt_001'' = (StatusProcessed, True) \<and>
          records (mem s') [1, 0] = records (mem s) [1, 0] \<and>
          records (MarkProcessed (mem s') ''evt_001'') (List_events (mem s) [''evt_002'', ''evt_001''])
            = records (mem s) [1, 0] \<and>
          records (MarkProcessed (mem s') ''evt_002'') (List_events (mem s) [''evt_002'', ''evt_001''])
            = [\<lparr>EventID = ''evt_002'', Payload = ''{}'', Status = StatusProcessed\<rparr>,
               \<lparr>EventID = ''evt_001'', Payload = ''{}'', Status = StatusAccepted\<rparr>]"
proof -
  let ?init = "initial demo_config
     [request ''evt_001'', request ''evt_002'', \<lparr>req_EventID = ''evt_001'', req_Payload = ''p1''\<rparr>]"
  obtain s where r: "run [CallStart, Handler 2, Handler 0, Handler 0, Handler 0,
        Handler 1, Handler 1, Handler 1] ?init = Some s"
    and ev: "events (store (mem s)) = [''evt_001'' \<mapsto> 0, ''evt_002'' \<mapsto> 1]"
    and hp: "heap (mem s) = (\<lambda>_. zero_Event)
        (0 := \<lparr>EventID = ''evt_001'', Payload = ''{}'', Status = StatusAccepted\<rparr>,
         1 := \<lparr>EventID = ''evt_002'', Payload = ''{}'', Status = StatusAccepted\<rparr>)"
    and rest: "next_addr (mem s) = 2" "queue (worker (mem s)) = [0, 1]" "loop s = AtSelect"
      "handlers s = [Responded Accepted, Responded Accepted,
                     AtSave \<lparr>req_EventID = ''evt_001'', req_Payload = ''p1''\<rparr>]"
    by (simp add: initial_def request_def New_App_def New_Store_def New_Worker_def Exists_def
        new_Event_def Save_def Enqueue_def queue_capacity_def Start_def)
  have inv: "store_inv (mem s)"
    using system_inv_run [OF r system_inv_initial] by (simp add: system_inv_def)
  have ord: "range_order (mem s) [''evt_002'', ''evt_001'']"
    by (auto simp: range_order_def ev split: if_splits)
  have l: "List_events (mem s) [''evt_002'', ''evt_001''] = [1, 0]"
    by (simp add: List_events_def ev)
  have recs: "records (mem s) [1, 0] =
            [\<lparr>EventID = ''evt_002'', Payload = ''{}'', Status = StatusAccepted\<rparr>,
             \<lparr>EventID = ''evt_001'', Payload = ''{}'', Status = StatusAccepted\<rparr>]"
    by (simp add: records_def hp)
  obtain s' where r': "run [Handler 2, LoopRecv, LoopFinish] s = Some s'"
    and ev': "events (store (mem s')) = [''evt_001'' \<mapsto> 2, ''evt_002'' \<mapsto> 1]"
    and hp': "heap (mem s') = (\<lambda>_. zero_Event)
        (0 := \<lparr>EventID = ''evt_001'', Payload = ''{}'', Status = StatusAccepted\<rparr>,
         1 := \<lparr>EventID = ''evt_002'', Payload = ''{}'', Status = StatusAccepted\<rparr>,
         2 := \<lparr>EventID = ''evt_001'', Payload = ''p1'', Status = StatusProcessed\<rparr>)"
    by (simp add: ev hp rest new_Event_def Save_def receive_def processEvent_def
        MarkProcessed_def fun_upd_twist)
  have g: "GetStatus (mem s') ''evt_001'' = (StatusProcessed, True)"
    by (simp add: GetStatus_def ev' hp')
  have same: "records (mem s') [1, 0] = records (mem s) [1, 0]"
    by (simp add: records_def hp hp')
  note thm1 = List_returns_references_to_the_records [OF inv ord r', of "''evt_001''"]
  note thm2 = List_returns_references_to_the_records [OF inv ord r', of "''evt_002''"]
  from thm1 have x1: "records (MarkProcessed (mem s') ''evt_001'')
        (List_events (mem s) [''evt_002'', ''evt_001'']) =
      map (\<lambda>a. if events (store (mem s')) ''evt_001'' = Some a
                then (heap (mem s') a)\<lparr>Status := StatusProcessed\<rparr> else heap (mem s') a)
        (List_events (mem s) [''evt_002'', ''evt_001''])"
    by blast
  from thm2 have x2: "records (MarkProcessed (mem s') ''evt_002'')
        (List_events (mem s) [''evt_002'', ''evt_001'']) =
      map (\<lambda>a. if events (store (mem s')) ''evt_002'' = Some a
                then (heap (mem s') a)\<lparr>Status := StatusProcessed\<rparr> else heap (mem s') a)
        (List_events (mem s) [''evt_002'', ''evt_001''])"
    by blast
  have m1: "records (MarkProcessed (mem s') ''evt_001'')
        (List_events (mem s) [''evt_002'', ''evt_001'']) = records (mem s) [1, 0]"
    unfolding x1 by (simp add: l ev' hp' hp records_def)
  have m2: "records (MarkProcessed (mem s') ''evt_002'')
        (List_events (mem s) [''evt_002'', ''evt_001''])
      = [\<lparr>EventID = ''evt_002'', Payload = ''{}'', Status = StatusProcessed\<rparr>,
         \<lparr>EventID = ''evt_001'', Payload = ''{}'', Status = StatusAccepted\<rparr>]"
    unfolding x2 by (simp add: l ev' hp')
  from r inv ord l recs r' ev' g same m1 m2 show ?thesis
    by (intro exI [of _ s] exI [of _ s']) simp
qed

section \<open>Without interference\<close>

text \<open>
  What the two racy paths do when nothing is scheduled in between: \<^verbatim>\<open>Stop\<close> alone drains
  and processes every queued item before it returns, and of two submissions of one key
  made one after the other the first is accepted and the second is a conflict.
\<close>

lemma processEvent_worker_update:
  "processEvent (m\<lparr>worker := w\<rparr>) e = (processEvent m e)\<lparr>worker := w\<rparr>"
  by (simp add: processEvent_def MarkProcessed_def split: option.splits)

lemma drain_Suc: "drain (Suc n) = StopLen # StopRecv # StopFinish # drain n"
  by (simp add: drain_def)

lemma drain_run:
  assumes "stopper s = AtLen"
  shows "run (drain (length (queue (worker (mem s))))) s =
         Some (s\<lparr>mem := foldl processEvent ((mem s)\<lparr>worker := (worker (mem s))\<lparr>queue := []\<rparr>\<rparr>)
                        (queue (worker (mem s))),
                 stopper := Returned\<rparr>)"
  using assms
proof (induction "queue (worker (mem s))" arbitrary: s)
  case Nil
  from Nil(1) have "(mem s)\<lparr>worker := (worker (mem s))\<lparr>queue := []\<rparr>\<rparr> = mem s"
    by simp
  with Nil show ?case
    by (simp add: drain_def Nil(1) [symmetric])
next
  case (Cons e q)
  let ?s3 = "s\<lparr>mem := processEvent ((mem s)\<lparr>worker := (worker (mem s))\<lparr>queue := q\<rparr>\<rparr>) e,
               stopper := AtLen\<rparr>"
  have three: "run [StopLen, StopRecv, StopFinish] s = Some ?s3"
    using Cons.prems Cons.hyps(2) [symmetric] by (simp add: receive_def)
  have q3: "q = queue (worker (mem ?s3))"
    by (simp add: processEvent_frame)
  have "run (drain (length (queue (worker (mem ?s3))))) ?s3 =
        Some (?s3\<lparr>mem := foldl processEvent
                 ((mem ?s3)\<lparr>worker := (worker (mem ?s3))\<lparr>queue := []\<rparr>\<rparr>) (queue (worker (mem ?s3))),
               stopper := Returned\<rparr>)"
    by (rule Cons.hyps(1) [OF q3]) simp
  moreover have "(mem ?s3)\<lparr>worker := (worker (mem ?s3))\<lparr>queue := []\<rparr>\<rparr>
      = processEvent ((mem s)\<lparr>worker := (worker (mem s))\<lparr>queue := []\<rparr>\<rparr>) e"
    by (simp add: processEvent_worker_update processEvent_frame)
  ultimately have rest: "run (drain (length q)) ?s3 =
        Some (s\<lparr>mem := foldl processEvent ((mem s)\<lparr>worker := (worker (mem s))\<lparr>queue := []\<rparr>\<rparr>) (e # q),
                stopper := Returned\<rparr>)"
    using q3 [symmetric] by simp
  have "run (drain (length (e # q))) s = run (drain (length q)) ?s3"
    using three run_append [of "[StopLen, StopRecv, StopFinish]" "drain (length q)" s]
    by (simp add: drain_Suc del: run.simps)
  with rest show ?case
    using Cons.hyps(2) [symmetric] by simp
qed

lemma GetStatus_MarkProcessed:
  "Exists m k \<Longrightarrow> GetStatus (MarkProcessed m k) k = (StatusProcessed, True)"
  by (auto simp: Exists_def MarkProcessed_def GetStatus_def)

lemma processed_stays:
  "GetStatus m k = (StatusProcessed, True) \<Longrightarrow> GetStatus (processEvent m e) k = (StatusProcessed, True)"
  by (auto simp: processEvent_def MarkProcessed_def GetStatus_def split: option.splits)

lemma foldl_processed_stays:
  "GetStatus m k = (StatusProcessed, True)
   \<Longrightarrow> GetStatus (foldl processEvent m q) k = (StatusProcessed, True)"
  by (induction q arbitrary: m) (simp_all add: processed_stays)

lemma foldl_processEvent_frame:
  "worker (foldl processEvent m q) = worker m \<and> store (foldl processEvent m q) = store m"
  by (induction q arbitrary: m) (simp_all add: processEvent_frame)

lemma foldl_processEvent_processed:
  assumes "e \<in> set q" "Exists m (EventID (heap m e))"
  shows "GetStatus (foldl processEvent m q) (EventID (heap m e)) = (StatusProcessed, True)"
  using assms
proof (induction q arbitrary: m)
  case Nil
  then show ?case by simp
next
  case (Cons x q)
  show ?case
  proof (cases "x = e")
    case True
    have "GetStatus (processEvent m e) (EventID (heap m e)) = (StatusProcessed, True)"
      using Cons.prems(2) by (simp add: processEvent_def GetStatus_MarkProcessed)
    then show ?thesis using True by (simp add: foldl_processed_stays)
  next
    case False
    with Cons.prems(1) have "e \<in> set q" by simp
    moreover have "Exists (processEvent m x) (EventID (heap (processEvent m x) e))"
      using Cons.prems(2) by simp
    ultimately have "GetStatus (foldl processEvent (processEvent m x) q)
        (EventID (heap (processEvent m x) e)) = (StatusProcessed, True)"
      by (rule Cons.IH)
    then show ?thesis by simp
  qed
qed

lemma drain_loop_foldl:
  "drain_loop m = foldl processEvent (m\<lparr>worker := (worker m)\<lparr>queue := []\<rparr>\<rparr>) (queue (worker m))"
proof (induction "queue (worker m)" arbitrary: m)
  case Nil
  from Nil have "m\<lparr>worker := (worker m)\<lparr>queue := []\<rparr>\<rparr> = m" by simp
  with Nil show ?case
    by (simp add: drain_loop.simps [of m] Nil [symmetric])
next
  case (Cons e q)
  let ?m1 = "processEvent (m\<lparr>worker := (worker m)\<lparr>queue := q\<rparr>\<rparr>) e"
  have q1: "q = queue (worker ?m1)" by (simp add: processEvent_frame)
  have "drain_loop m = drain_loop ?m1"
    by (simp add: drain_loop.simps [of m] Cons.hyps(2) [symmetric])
  also have "\<dots> = foldl processEvent (?m1\<lparr>worker := (worker ?m1)\<lparr>queue := []\<rparr>\<rparr>) (queue (worker ?m1))"
    by (rule Cons.hyps(1) [OF q1])
  also have "?m1\<lparr>worker := (worker ?m1)\<lparr>queue := []\<rparr>\<rparr>
      = processEvent (m\<lparr>worker := (worker m)\<lparr>queue := []\<rparr>\<rparr>) e"
    by (simp add: processEvent_worker_update processEvent_frame)
  finally show ?case
    using q1 [symmetric] Cons.hyps(2) [symmetric] by simp
qed

lemma Stop_alone_is_Stop:
  assumes "stopper s = NotCalled"
  shows "run (StopClose # drain (length (queue (worker (mem s))))) s =
         Some (s\<lparr>mem := Stop (mem s), stopper := Returned\<rparr>)"
proof -
  let ?s1 = "s\<lparr>mem := close_done (mem s), stopper := AtLen\<rparr>"
  have q1: "queue (worker (close_done (mem s))) = queue (worker (mem s))"
    by (simp add: close_done_def)
  have "run (drain (length (queue (worker (mem ?s1))))) ?s1 =
        Some (?s1\<lparr>mem := foldl processEvent
                 ((mem ?s1)\<lparr>worker := (worker (mem ?s1))\<lparr>queue := []\<rparr>\<rparr>) (queue (worker (mem ?s1))),
               stopper := Returned\<rparr>)"
    by (rule drain_run) simp
  then show ?thesis
    using assms by (simp add: q1 Stop_def drain_loop_foldl)
qed

lemma Stop_alone_effect:
  assumes "e \<in> set (queue (worker m))" "Exists m (EventID (heap m e))"
  shows "GetStatus (Stop m) (EventID (heap m e)) = (StatusProcessed, True) \<and>
         queue (worker (Stop m)) = [] \<and> IsRunning (Stop m) = IsRunning m"
proof -
  let ?m = "(close_done m)\<lparr>worker := (worker (close_done m))\<lparr>queue := []\<rparr>\<rparr>"
  have q: "queue (worker (close_done m)) = queue (worker m)"
    by (simp add: close_done_def)
  have ex: "Exists ?m (EventID (heap ?m e))"
    using assms(2) by (simp add: Exists_def close_done_def)
  have "GetStatus (foldl processEvent ?m (queue (worker m))) (EventID (heap ?m e))
      = (StatusProcessed, True)"
    using assms(1) ex by (rule foldl_processEvent_processed)
  moreover have "EventID (heap ?m e) = EventID (heap m e)"
    by (simp add: close_done_def)
  ultimately show ?thesis
    by (simp add: Stop_def drain_loop_foldl q foldl_processEvent_frame IsRunning_def close_done_def)
qed

lemma Stop_alone_drains_all:
  assumes "run as (initial config reqs) = Some s" "stopper s = NotCalled"
    and "e \<in> set (queue (worker (mem s)))"
  shows "run (StopClose # drain (length (queue (worker (mem s))))) s =
           Some (s\<lparr>mem := Stop (mem s), stopper := Returned\<rparr>) \<and>
         GetStatus (Stop (mem s)) (EventID (heap (mem s) e)) = (StatusProcessed, True) \<and>
         queue (worker (Stop (mem s))) = []"
  using Stop_alone_is_Stop [OF assms(2)]
    Stop_alone_effect [OF assms(3) queued_events_are_saved [OF assms(1,3)]]
  by simp

lemma Submit_twice:
  assumes "req_EventID req \<noteq> ''''" "\<not> Exists m (req_EventID req)"
    and "length (queue (worker m)) < queue_capacity"
    and "req_EventID req' = req_EventID req"
  shows "fst (Submit m req) = Returns Accepted \<and>
         Submit (snd (Submit m req)) req' = (Returns Conflict, snd (Submit m req))"
proof -
  have "Exists (snd (Submit m req)) (req_EventID req')"
    using assms by (simp add: Submit_new saved_def Exists_def)
  then show ?thesis using assms
    by (simp add: Submit_new Submit_conflict)
qed

end
